theory Spec2Isabelle
  imports Complex_Main "HOL-Library.Word"
begin

unbundle bit_operations_syntax

section \<open>The OMINO MIDI file reader of midi\_visualizer.jsx\<close>

text \<open>
  A shallow embedding of the Standard MIDI File reader in \<^verbatim>\<open>src/midi_visualizer.jsx\<close>
  (the constructor \<^verbatim>\<open>MidiFile\<close>, the methods installed by \<^verbatim>\<open>addMidiFileMethods\<close>) and of
  \<^verbatim>\<open>createBpmMap\<close>. The file is a string read with BINARY encoding; it is modelled as
  the list of its character codes.
\<close>

subsection \<open>JavaScript numbers\<close>

text \<open>
  A JavaScript number is modelled as an exact rational, or one of the three non-finite
  values. Rounding of IEEE doubles is not modelled: arithmetic on finite values is exact.
  \<open>Fin 0\<close> stands for both zeros; every divisor of the program that can be zero
  (\<^verbatim>\<open>timeDivision\<close>, \<^verbatim>\<open>microsecondsPerQuarterNote\<close>) is a positive zero, which is how
  \<open>jdiv\<close> reads a zero divisor.
\<close>

datatype jsnum = Fin rat | PInf | NInf | NaN

text \<open>
  \<^verbatim>\<open>charCodeAt\<close> and the big-endian readers return a non-negative integer, or NaN when
  they read past the end of the string: \<open>None\<close> is NaN.
\<close>

type_synonym jsint = "nat option"

definition num_of :: "jsint \<Rightarrow> jsnum" where
  "num_of b = (case b of None \<Rightarrow> NaN | Some n \<Rightarrow> Fin (of_nat n))"

text \<open>Truthiness of a number in a condition: NaN and zero are falsy.\<close>

fun truthy :: "jsnum \<Rightarrow> bool" where
  "truthy (Fin a) = (a \<noteq> 0)"
| "truthy PInf = True"
| "truthy NInf = True"
| "truthy NaN = False"

definition truthy_int :: "jsint \<Rightarrow> bool" where
  "truthy_int b = (case b of None \<Rightarrow> False | Some n \<Rightarrow> n \<noteq> 0)"

text \<open>\<^verbatim>\<open>a == b\<close> on numbers: NaN equals nothing, itself included.\<close>

definition js_eq :: "jsint \<Rightarrow> jsint \<Rightarrow> bool" where
  "js_eq a b = (case (a, b) of (Some x, Some y) \<Rightarrow> x = y | _ \<Rightarrow> False)"

text \<open>\<^verbatim>\<open>b & k\<close> for a constant \<open>k\<close>: NaN converts to 0.\<close>

definition bitand :: "jsint \<Rightarrow> nat \<Rightarrow> nat" where
  "bitand b k = (case b of None \<Rightarrow> 0 | Some n \<Rightarrow> n AND k)"

fun jneg :: "jsnum \<Rightarrow> jsnum" where
  "jneg (Fin a) = Fin (- a)"
| "jneg PInf = NInf"
| "jneg NInf = PInf"
| "jneg NaN = NaN"

fun jadd :: "jsnum \<Rightarrow> jsnum \<Rightarrow> jsnum" where
  "jadd (Fin a) (Fin b) = Fin (a + b)"
| "jadd NaN _ = NaN"
| "jadd _ NaN = NaN"
| "jadd PInf NInf = NaN"
| "jadd NInf PInf = NaN"
| "jadd PInf _ = PInf"
| "jadd _ PInf = PInf"
| "jadd NInf _ = NInf"
| "jadd _ NInf = NInf"

definition jsub :: "jsnum \<Rightarrow> jsnum \<Rightarrow> jsnum" where
  "jsub a b = jadd a (jneg b)"

text \<open>The product of an infinity with a finite value takes the sign of the product.\<close>

definition inf_times :: "bool \<Rightarrow> rat \<Rightarrow> jsnum" where
  "inf_times positive b =
     (if b = 0 then NaN else if (0 < b) = positive then PInf else NInf)"

fun jmul :: "jsnum \<Rightarrow> jsnum \<Rightarrow> jsnum" where
  "jmul (Fin a) (Fin b) = Fin (a * b)"
| "jmul NaN _ = NaN"
| "jmul _ NaN = NaN"
| "jmul PInf (Fin b) = inf_times True b"
| "jmul NInf (Fin b) = inf_times False b"
| "jmul (Fin a) PInf = inf_times True a"
| "jmul (Fin a) NInf = inf_times False a"
| "jmul PInf PInf = PInf"
| "jmul NInf NInf = PInf"
| "jmul PInf NInf = NInf"
| "jmul NInf PInf = NInf"

fun jdiv :: "jsnum \<Rightarrow> jsnum \<Rightarrow> jsnum" where
  "jdiv (Fin a) (Fin b) =
     (if b = 0 then (if a = 0 then NaN else if 0 < a then PInf else NInf)
      else Fin (a / b))"
| "jdiv NaN _ = NaN"
| "jdiv _ NaN = NaN"
| "jdiv PInf (Fin b) = (if 0 \<le> b then PInf else NInf)"
| "jdiv NInf (Fin b) = (if 0 \<le> b then NInf else PInf)"
| "jdiv (Fin a) PInf = Fin 0"
| "jdiv (Fin a) NInf = Fin 0"
| "jdiv PInf PInf = NaN"
| "jdiv NInf NInf = NaN"
| "jdiv PInf NInf = NaN"
| "jdiv NInf PInf = NaN"

text \<open>\<^verbatim>\<open>Math.round\<close> rounds to the nearest integer, a half upwards.\<close>

fun jround :: "jsnum \<Rightarrow> jsnum" where
  "jround (Fin a) = Fin (of_int \<lfloor>a + 1 / 2\<rfloor>)"
| "jround x = x"


text \<open>\<^verbatim>\<open>a >= b\<close> and \<^verbatim>\<open>a <= b\<close>: false as soon as one side is NaN.\<close>

fun jge :: "jsnum \<Rightarrow> jsnum \<Rightarrow> bool" where
  "jge (Fin a) (Fin b) = (b \<le> a)"
| "jge NaN _ = False"
| "jge _ NaN = False"
| "jge PInf _ = True"
| "jge _ NInf = True"
| "jge _ PInf = False"
| "jge NInf _ = False"

definition jle :: "jsnum \<Rightarrow> jsnum \<Rightarrow> bool" where
  "jle a b = jge b a"

subsection \<open>Reading the file\<close>

definition charCodeAt :: "nat list \<Rightarrow> nat \<Rightarrow> jsint" where
  "charCodeAt s offset = (if offset < length s then Some (s ! offset) else None)"

text \<open>\<^verbatim>\<open>s.substring(a, b)\<close> for \<open>a \<le> b\<close>, the only way the reader calls it.\<close>

definition substring :: "nat list \<Rightarrow> nat \<Rightarrow> nat \<Rightarrow> nat list" where
  "substring s a b = take (b - a) (drop a s)"

definition getByte :: "nat list \<Rightarrow> nat \<Rightarrow> jsint" where
  "getByte file offset = charCodeAt file offset"

definition getShort :: "nat list \<Rightarrow> nat \<Rightarrow> jsint" where
  "getShort file offset =
     (case (charCodeAt file offset, charCodeAt file (offset + 1)) of
        (Some a, Some b) \<Rightarrow> Some (a * 256 + b)
      | _ \<Rightarrow> None)"

definition getInt24 :: "nat list \<Rightarrow> nat \<Rightarrow> jsint" where
  "getInt24 file offset =
     (case (charCodeAt file offset, charCodeAt file (offset + 1),
            charCodeAt file (offset + 2)) of
        (Some a, Some b, Some c) \<Rightarrow> Some (a * 2 ^ 16 + b * 2 ^ 8 + c * 2 ^ 0)
      | _ \<Rightarrow> None)"

definition getLong :: "nat list \<Rightarrow> nat \<Rightarrow> jsint" where
  "getLong file offset =
     (case (charCodeAt file offset, charCodeAt file (offset + 1),
            charCodeAt file (offset + 2), charCodeAt file (offset + 3)) of
        (Some a, Some b, Some c, Some d) \<Rightarrow>
          Some (a * 2 ^ 24 + b * 2 ^ 16 + c * 2 ^ 8 + d)
      | _ \<Rightarrow> None)"

text \<open>
  \<^verbatim>\<open>getVarLen\<close> and \<^verbatim>\<open>getVarVal\<close> loop with \<^verbatim>\<open>while (1)\<close>. Past the end of the file the
  byte is NaN, whose high bit reads as clear, so both loops end there at the latest.
\<close>

function getVarLen_loop :: "nat list \<Rightarrow> nat \<Rightarrow> nat \<Rightarrow> nat" where
  "getVarLen_loop file result offset =
     (if bitand (charCodeAt file offset) 0x80 \<noteq> 0
      then getVarLen_loop file (result + 1) (offset + 1)
      else result)"
  by pat_completeness auto
termination
  by (relation "measure (\<lambda>(file, result, offset). length file - offset)")
     (auto simp: charCodeAt_def bitand_def split: if_splits)

declare getVarLen_loop.simps [simp del]

definition getVarLen :: "nat list \<Rightarrow> nat \<Rightarrow> nat" where
  "getVarLen file offset = getVarLen_loop file 1 offset"

function getVarVal_loop :: "nat list \<Rightarrow> nat \<Rightarrow> nat \<Rightarrow> nat" where
  "getVarVal_loop file result offset =
     (let b = charCodeAt file offset;
          result = result * 128 + bitand b 0x7f
      in if bitand b 0x80 \<noteq> 0
         then getVarVal_loop file result (offset + 1)
         else result)"
  by pat_completeness auto
termination
  by (relation "measure (\<lambda>(file, result, offset). length file - offset)")
     (auto simp: charCodeAt_def bitand_def split: if_splits)

declare getVarVal_loop.simps [simp del]

definition getVarVal :: "nat list \<Rightarrow> nat \<Rightarrow> nat" where
  "getVarVal file offset = getVarVal_loop file 0 offset"

definition getVarString :: "nat list \<Rightarrow> nat \<Rightarrow> nat list" where
  "getVarString file offset =
     (let len = getVarVal file offset;
          lenlen = getVarLen file offset
      in substring file (offset + lenlen) (offset + lenlen + len))"

text \<open>
  \<^verbatim>\<open>getEventLength\<close> has no \<^verbatim>\<open>return\<close> for a status outside its two tests; the call
  then yields \<^verbatim>\<open>undefined\<close>, which is \<open>None\<close> here.
\<close>

definition getEventLength :: "nat list \<Rightarrow> nat \<Rightarrow> nat \<Rightarrow> nat option" where
  "getEventLength file status offset =
     (let statusTop = drop_bit 4 (status AND 0xf0)
      in if statusTop \<in> {0x8, 0x9, 0xa, 0xb, 0xe} then Some 2
         else if statusTop \<in> {0xc, 0xd} then Some 1
         else if status = 0xff \<or> status = 0xf0
         then Some (getVarVal file (offset + 1) + getVarLen file (offset + 1) + 1)
         else None)"

subsection \<open>The data model\<close>

text \<open>
  The objects built by the constructors \<^verbatim>\<open>Note\<close>, \<^verbatim>\<open>Channel\<close>, \<^verbatim>\<open>Track\<close>, \<^verbatim>\<open>Tempo\<close>,
  \<^verbatim>\<open>TimeSignature\<close> and \<^verbatim>\<open>BPM\<close>. A property that the code never assigns is \<open>None\<close>
  (\<^verbatim>\<open>undefined\<close>): \<open>durTime\<close> and \<open>durBeats\<close> of a note, the name of a track, the
  instrument of a channel.
\<close>

record Note =
  time :: jsnum
  beats :: jsnum
  channel :: nat
  pitch :: jsint
  vel :: jsint
  durTime :: "jsnum option"
  durBeats :: "jsnum option"

text \<open>
  A \<^verbatim>\<open>Note\<close> object is shared: \<^verbatim>\<open>addNote\<close> pushes the same object on \<^verbatim>\<open>this.notes\<close> and
  on the channel's \<^verbatim>\<open>notes\<close>, and later writes \<^verbatim>\<open>durTime\<close> through the channel's
  reference. \<^verbatim>\<open>this.notes\<close> is the store of the note objects, in the order of their
  creation; a channel holds references into it, the positions in \<^verbatim>\<open>this.notes\<close>.
  In the same way a track holds the indices of its channels in \<^verbatim>\<open>this.channels\<close>.
  \<^verbatim>\<open>Track\<close> is only called without its argument, so that the \<^verbatim>\<open>index\<close> of a track is
  never defined; the field is left out.
\<close>

record Channel =
  index :: nat
  trackIndex :: nat
  midiChannel :: nat
  channel_notes :: "nat list"
  insrument :: "nat list option"

record Track =
  track_name :: "nat list option"
  track_channels :: "nat list"

record Tempo =
  tick :: nat
  tempo_microsecondsPerQuarterNote :: jsint

record TimeSignature =
  ts_tick :: nat
  numerator :: jsint
  denominator :: int
  metronomeInterval :: jsint
  hemiDemiSemiNotesPerQuarterNote :: jsint
  ts_second :: jsnum

record BPM =
  second :: jsnum
  bpm :: jsnum
  bpm_microsecondsPerQuarterNote :: jsint

text \<open>
  The fields of a \<^verbatim>\<open>MidiFile\<close> object. \<^verbatim>\<open>this.channels\<close> is a sparse array: a map from
  the channel index. \<open>file_contents\<close> is \<^verbatim>\<open>this.file\<close>, \<open>midi_notes\<close> is \<^verbatim>\<open>this.notes\<close> and
  \<open>isMidi_flag\<close> is \<^verbatim>\<open>this.isMidi\<close>. \<^verbatim>\<open>this.filePath\<close> is left out: the constructor is
  given the contents of the file.
\<close>

record MidiFile =
  microsecondsPerQuarterNote :: jsint
  timeSignatureNumerator :: jsint
  timeSignatureDenominator :: int
  timeSignatureMetronomeInterval :: jsint
  timeSignatureHemiDemiSemiNotesPerQuarterNote :: jsint
  file_contents :: "nat list"
  fileLength :: nat
  isMidi_flag :: bool
  format :: jsint
  trackCount :: jsint
  timeDivision :: jsnum
  framesPerSecond :: "nat option"
  ticksPerBeat :: "jsint option"
  chunkCount :: nat
  noteOns :: nat
  noteOffs :: nat
  midi_notes :: "Note list"
  channels :: "nat \<rightharpoonup> Channel"
  tracks :: "Track list"
  tempoMap :: "Tempo list"
  timeSignatureMap :: "TimeSignature list"

text \<open>Reading a property of \<^verbatim>\<open>undefined\<close> throws; nothing in the reader catches it.\<close>

datatype error = TypeError

subsection \<open>findChannel and addNote\<close>

definition new_Channel :: "nat \<Rightarrow> Channel" where
  "new_Channel i =
     \<lparr>index = i, trackIndex = i div 16, midiChannel = i mod 16,
      channel_notes = [], insrument = None\<rparr>"

text \<open>
  \<^verbatim>\<open>findChannel\<close> returns the channel at the index \<open>k\<close>, creating it when it is missing.
  The track \<^verbatim>\<open>this.tracks[Math.floor(index / 16)]\<close> of a new channel "MUST already be
  allocated": when it is not, \<^verbatim>\<open>track.channels\<close> throws. The result is the object and the
  channel found; a caller that writes to the channel stores it back at \<open>k\<close>.
\<close>

definition findChannel :: "MidiFile \<Rightarrow> nat \<Rightarrow> error + MidiFile \<times> Channel" where
  "findChannel m k =
     (case channels m k of
        Some c \<Rightarrow> Inr (m, c)
      | None \<Rightarrow>
          if k div 16 < length (tracks m)
          then let c = new_Channel k;
                   tr = tracks m ! (k div 16)
               in Inr (m\<lparr>channels := (channels m)(k \<mapsto> c),
                         tracks := (tracks m)[k div 16 :=
                            tr\<lparr>track_channels := track_channels tr @ [k]\<rparr>]\<rparr>, c)
          else Inl TypeError)"

text \<open>
  The backward scan of \<^verbatim>\<open>addNote\<close>:
  \<^verbatim>\<open>for (var i = channelO.notes.length - 2; i >= 0; i--)\<close>. The last argument is \<open>i + 1\<close>,
  the number of entries still to visit. On a match the code sets \<^verbatim>\<open>i = 0\<close>, so that the
  loop ends after this iteration.
\<close>

fun addNote_scan ::
  "Note list \<Rightarrow> nat list \<Rightarrow> jsnum \<Rightarrow> jsnum \<Rightarrow> jsint \<Rightarrow> nat \<Rightarrow> Note list" where
  "addNote_scan ns cn t b p 0 = ns"
| "addNote_scan ns cn t b p (Suc i) =
     (let note2 = ns ! (cn ! i)
      in if truthy_int (vel note2) \<and> js_eq (pitch note2) p
         then ns[cn ! i := note2\<lparr>durTime := Some (jsub t (time note2)),
                                   durBeats := Some (jsub b (beats note2))\<rparr>]
         else addNote_scan ns cn t b p i)"

definition addNote ::
  "MidiFile \<Rightarrow> jsnum \<Rightarrow> jsnum \<Rightarrow> nat \<Rightarrow> jsint \<Rightarrow> jsint \<Rightarrow> error + MidiFile" where
  "addNote m t b ch p v =
     (let note = \<lparr>time = t, beats = b, channel = ch, pitch = p, vel = v,
                  durTime = None, durBeats = None\<rparr>;
          ref = length (midi_notes m);
          m1 = m\<lparr>midi_notes := midi_notes m @ [note]\<rparr>
      in case findChannel m1 ch of
           Inl e \<Rightarrow> Inl e
         | Inr (m2, channelO) \<Rightarrow>
             let cn = channel_notes channelO @ [ref];
                 m3 = m2\<lparr>channels := (channels m2)(ch \<mapsto> channelO\<lparr>channel_notes := cn\<rparr>)\<rparr>
             in if truthy_int v
                then Inr (m3\<lparr>noteOns := noteOns m3 + 1\<rparr>)
                else Inr (m3\<lparr>noteOffs := noteOffs m3 + 1,
                            midi_notes := addNote_scan (midi_notes m3) cn t b p (length cn - 1)\<rparr>))"

definition addTimeSignatureAt ::
  "MidiFile \<Rightarrow> nat \<Rightarrow> jsint \<Rightarrow> int \<Rightarrow> jsint \<Rightarrow> jsint \<Rightarrow> MidiFile" where
  "addTimeSignatureAt m tk n d mi h =
     m\<lparr>timeSignatureMap := timeSignatureMap m @
        [\<lparr>ts_tick = tk, numerator = n, denominator = d, metronomeInterval = mi,
          hemiDemiSemiNotesPerQuarterNote = h, ts_second = Fin 0\<rparr>]\<rparr>"

definition addTempo :: "MidiFile \<Rightarrow> nat \<Rightarrow> jsint \<Rightarrow> MidiFile" where
  "addTempo m tk mpq =
     m\<lparr>tempoMap := tempoMap m @ [\<lparr>tick = tk, tempo_microsecondsPerQuarterNote = mpq\<rparr>]\<rparr>"

subsection \<open>getTime\<close>

text \<open>
  The statement \<^verbatim>\<open>seconds += (currentMicrosecondsPerQuarterNote * deltaTickCounter) /
  this.timeDivision / 1000000\<close>, with \<^verbatim>\<open>deltaTickCounter = tickCounter - prevTickCounter\<close>.
\<close>

definition addSeconds :: "jsnum \<Rightarrow> jsint \<Rightarrow> nat \<Rightarrow> nat \<Rightarrow> jsnum \<Rightarrow> jsnum" where
  "addSeconds seconds cur tickCounter prevTickCounter td =
     (let deltaTickCounter = Fin (of_nat tickCounter - of_nat prevTickCounter)
      in jadd seconds (jdiv (jdiv (jmul (num_of cur) deltaTickCounter) td) (Fin 1000000)))"

text \<open>
  The loop of \<^verbatim>\<open>getTime\<close> over its variables \<^verbatim>\<open>seconds\<close>,
  \<^verbatim>\<open>currentMicrosecondsPerQuarterNote\<close>, \<^verbatim>\<open>tickCounter\<close>, \<^verbatim>\<open>prevTickCounter\<close> and \<^verbatim>\<open>index\<close>.
  Each iteration either sets \<^verbatim>\<open>tickCounter\<close> to the target, which ends the loop, or moves
  \<^verbatim>\<open>index\<close> forward in the tempo map.
\<close>

function getTime_loop ::
  "Tempo list \<Rightarrow> jsnum \<Rightarrow> nat \<Rightarrow> jsnum \<Rightarrow> jsint \<Rightarrow> nat \<Rightarrow> nat \<Rightarrow> nat \<Rightarrow> jsnum" where
  "getTime_loop tm td targetTick seconds cur tickCounter prevTickCounter i =
     (if tickCounter < targetTick
      then if i < length tm
           then let cur' = tempo_microsecondsPerQuarterNote (tm ! i);
                    tickCounter' =
                      (if i + 1 \<ge> length tm then targetTick
                       else if targetTick \<le> tick (tm ! (i + 1)) then targetTick
                       else tick (tm ! (i + 1)))
                in getTime_loop tm td targetTick
                     (addSeconds seconds cur' tickCounter' prevTickCounter td)
                     cur' tickCounter' tickCounter' (i + 1)
           else getTime_loop tm td targetTick
                  (addSeconds seconds cur targetTick prevTickCounter td)
                  cur targetTick targetTick i
      else seconds)"
  by pat_completeness auto
termination
  by (relation "measure (\<lambda>(tm, td, targetTick, seconds, cur, tickCounter, prev, i).
        (length tm - i) + (if tickCounter < targetTick then 1 else 0))")
     (auto split: if_splits)

declare getTime_loop.simps [simp del]

definition getTime :: "Tempo list \<Rightarrow> jsnum \<Rightarrow> nat \<Rightarrow> jsnum" where
  "getTime tm td targetTick = getTime_loop tm td targetTick (Fin 0) (Some 500000) 0 0 0"

subsection \<open>Decoding a track\<close>

text \<open>
  The local variables of the constructor that live across the events of one
  \<^verbatim>\<open>MTrk\<close> chunk.
\<close>

record TrackState =
  chunkOffset :: nat
  previousStatus :: nat
  ticks :: nat
  midiChannelPrefix :: jsint
  seconds :: jsnum

text \<open>
  \<^verbatim>\<open>1 << b\<close>: the shift count is taken modulo 32 (NaN counts as 0) and the result is a
  signed 32-bit integer.
\<close>

definition shl1 :: "jsint \<Rightarrow> int" where
  "shl1 b =
     (let s = (case b of None \<Rightarrow> 0 | Some n \<Rightarrow> n mod 32)
      in if s = 31 then - (2 ^ 31) else 2 ^ s)"

text \<open>
  The inner \<^verbatim>\<open>switch (b1)\<close> of a meta event (status \<^verbatim>\<open>0xff\<close>). It returns the file object
  and the value of \<^verbatim>\<open>midiChannelPrefix\<close>. \<^verbatim>\<open>track\<close> is the object pushed for this chunk,
  at position \<^verbatim>\<open>currentTrack\<close> of \<^verbatim>\<open>this.tracks\<close>. For an instrument name after a NaN
  channel prefix the channel index is NaN: \<^verbatim>\<open>findChannel\<close> finds no channel and no track
  at it, and \<^verbatim>\<open>track.channels\<close> throws.
\<close>

definition metaEvent ::
  "nat list \<Rightarrow> nat \<Rightarrow> MidiFile \<Rightarrow> nat \<Rightarrow> jsint \<Rightarrow> nat \<Rightarrow> jsint
     \<Rightarrow> error + MidiFile \<times> jsint" where
  "metaEvent fl currentTrack m tk prefix off b1 =
     (if b1 = Some 0x03
      then Inr (m\<lparr>tracks := (tracks m)[currentTrack :=
                   (tracks m ! currentTrack)\<lparr>track_name := Some (getVarString fl (off + 1))\<rparr>]\<rparr>,
                prefix)
      else if b1 = Some 0x04
      then (case prefix of
              None \<Rightarrow> Inl TypeError
            | Some p \<Rightarrow>
                (case findChannel m (currentTrack * 16 + p) of
                   Inl e \<Rightarrow> Inl e
                 | Inr (m', channelO) \<Rightarrow>
                     Inr (m'\<lparr>channels := (channels m')(currentTrack * 16 + p \<mapsto>
                               channelO\<lparr>insrument := Some (getVarString fl (off + 1))\<rparr>)\<rparr>,
                          prefix)))
      else if b1 = Some 0x20
      then Inr (m, getByte fl (off + 2))
      else if b1 = Some 0x51
      then let mpq = getInt24 fl (off + 2)
           in Inr (addTempo (m\<lparr>microsecondsPerQuarterNote := mpq\<rparr>) tk mpq, prefix)
      else if b1 = Some 0x58
      then let n = getByte fl (off + 2);
               d = shl1 (getByte fl (off + 3));
               mi = getByte fl (off + 4);
               h = getByte fl (off + 5)
           in Inr (addTimeSignatureAt
                     (m\<lparr>timeSignatureNumerator := n,
                        timeSignatureDenominator := d,
                        timeSignatureMetronomeInterval := mi,
                        timeSignatureHemiDemiSemiNotesPerQuarterNote := h\<rparr>)
                     tk n d mi h, prefix)
      else Inr (m, prefix))"

text \<open>
  One iteration of \<^verbatim>\<open>while (chunkOffset < chunkEnd)\<close>. When \<^verbatim>\<open>getEventLength\<close> returns
  \<^verbatim>\<open>undefined\<close>, \<^verbatim>\<open>chunkOffset += eventLength\<close> makes \<^verbatim>\<open>chunkOffset\<close> NaN and the loop
  condition false: the iteration then returns no next state. The unused local
  \<^verbatim>\<open>partial\<close> is left out.
\<close>

definition decodeEvent ::
  "nat list \<Rightarrow> nat \<Rightarrow> MidiFile \<Rightarrow> TrackState \<Rightarrow> error + MidiFile \<times> TrackState option" where
  "decodeEvent fl currentTrack m st =
     (let delta = getVarVal fl (chunkOffset st);
          tk = ticks st + delta;
          timed = (tk \<noteq> 0 \<and> truthy (timeDivision m)
                     \<and> truthy_int (microsecondsPerQuarterNote m));
          secs = (if timed then getTime (tempoMap m) (timeDivision m) tk else seconds st);
          bts = (if timed then jdiv (Fin (of_nat tk)) (timeDivision m) else Fin 0);
          off1 = chunkOffset st + getVarLen fl (chunkOffset st);
          newStatus = (bitand (charCodeAt fl off1) 0x80 \<noteq> 0);
          status = (case charCodeAt fl off1 of
                      Some c \<Rightarrow> if newStatus then c else previousStatus st
                    | None \<Rightarrow> previousStatus st);
          off = (if newStatus then off1 + 1 else off1);
          statusTop = (if status = 0xff then status else drop_bit 4 (status AND 0xf0));
          ch = currentTrack * 16 + (status AND 0x0f);
          b1 = charCodeAt fl off;
          b2 = charCodeAt fl (off + 1);
          handled =
            (if statusTop = 8
             then map_sum id (\<lambda>m'. (m', midiChannelPrefix st)) (addNote m secs bts ch b1 (Some 0))
             else if statusTop = 9
             then map_sum id (\<lambda>m'. (m', midiChannelPrefix st)) (addNote m secs bts ch b1 b2)
             else if statusTop = 0xff
             then metaEvent fl currentTrack m tk (midiChannelPrefix st) off b1
             else Inr (m, midiChannelPrefix st))
      in case handled of
           Inl e \<Rightarrow> Inl e
         | Inr (m', prefix') \<Rightarrow>
             Inr (m', case getEventLength fl status off of
                        None \<Rightarrow> None
                      | Some eventLength \<Rightarrow>
                          Some \<lparr>chunkOffset = off + eventLength, previousStatus = status,
                                ticks = tk, midiChannelPrefix = prefix', seconds = secs\<rparr>))"

text \<open>Every event moves the cursor forward, so the loop over a track ends.\<close>

lemma getVarLen_loop_ge: "r \<le> getVarLen_loop fl r off"
  by (induction fl r off rule: getVarLen_loop.induct)
     (subst getVarLen_loop.simps, auto)

lemma getVarLen_pos: "1 \<le> getVarLen fl off"
  unfolding getVarLen_def by (rule getVarLen_loop_ge)

lemma decodeEvent_advances:
  assumes "decodeEvent fl ct m st = Inr (m', Some st')"
  shows "chunkOffset st < chunkOffset st'"
proof -
  have "0 < getVarLen fl (chunkOffset st)"
    using getVarLen_pos [of fl "chunkOffset st"] by simp
  with assms show ?thesis
    unfolding decodeEvent_def Let_def
    by (auto split: sum.splits option.splits prod.splits if_splits)
qed

function track_loop ::
  "nat list \<Rightarrow> nat \<Rightarrow> nat \<Rightarrow> MidiFile \<Rightarrow> TrackState \<Rightarrow> error + MidiFile" where
  "track_loop fl currentTrack chunkEnd m st =
     (if chunkOffset st < chunkEnd
      then (case decodeEvent fl currentTrack m st of
              Inl e \<Rightarrow> Inl e
            | Inr (m', None) \<Rightarrow> Inr m'
            | Inr (m', Some st') \<Rightarrow> track_loop fl currentTrack chunkEnd m' st')
      else Inr m)"
  by pat_completeness auto

termination
  by (relation "measure (\<lambda>(fl, ct, chunkEnd, m, st). chunkEnd - chunkOffset st)")
     (auto dest: decodeEvent_advances)

declare track_loop.simps [simp del]

subsection \<open>The constructor\<close>

definition isMidi :: "nat list \<Rightarrow> bool" where
  "isMidi s = (substring s 0 4 = map of_char ''MThd'')"

definition new_Track :: Track where
  "new_Track = \<lparr>track_name = None, track_channels = []\<rparr>"

text \<open>
  The loop \<^verbatim>\<open>while (offset < this.fileLength)\<close> over the chunks, from the variables
  \<^verbatim>\<open>offset\<close> and \<^verbatim>\<open>currentTrack\<close>. \<^verbatim>\<open>this.file\<close> is assigned once, before the loop; the
  loop takes it as the parameter \<open>fl\<close>, and \<^verbatim>\<open>this.fileLength\<close> is its length. When the
  four bytes of the chunk length are not all in the file, \<^verbatim>\<open>chunkLength\<close> is NaN: then
  \<^verbatim>\<open>chunkEnd\<close> is NaN and no event is decoded, and \<^verbatim>\<open>offset\<close> becomes NaN, which ends the
  loop.
\<close>

function chunk_loop :: "nat list \<Rightarrow> MidiFile \<Rightarrow> nat \<Rightarrow> nat \<Rightarrow> error + MidiFile" where
  "chunk_loop fl m offset currentTrack =
     (if offset < length fl
      then let chunkType = substring fl offset (offset + 4);
               chunkLength = getLong fl (offset + 4);
               m1 = m\<lparr>chunkCount := chunkCount m + 1\<rparr>
           in if chunkType = map of_char ''MTrk''
              then let m2 = m1\<lparr>tracks := tracks m1 @ [new_Track]\<rparr>
                   in (case chunkLength of
                         None \<Rightarrow> Inr m2
                       | Some len \<Rightarrow>
                           (case track_loop fl currentTrack (offset + 8 + len) m2
                                   \<lparr>chunkOffset = offset + 8, previousStatus = 0, ticks = 0,
                                    midiChannelPrefix = Some 0, seconds = Fin 0\<rparr> of
                              Inl e \<Rightarrow> Inl e
                            | Inr m3 \<Rightarrow> chunk_loop fl m3 (offset + 8 + len) (currentTrack + 1)))
              else (case chunkLength of
                      None \<Rightarrow> Inr m1
                    | Some len \<Rightarrow> chunk_loop fl m1 (offset + 8 + len) currentTrack)
      else Inr m)"
  by pat_completeness auto
termination
  by (relation "measure (\<lambda>(fl, m, offset, currentTrack). length fl - offset)") auto

declare chunk_loop.simps [simp del]

text \<open>
  The constructor up to the chunk loop (the lines before \<^verbatim>\<open>var offset = 14\<close>). The
  checkbox \<^verbatim>\<open>midiWndw.halfSpeedCheckbox.value\<close> is the parameter \<open>halfSpeed\<close>.
  \<^verbatim>\<open>this.framesPerSecond\<close> and \<^verbatim>\<open>this.ticksPerBeat\<close> are assigned from the division
  before it is halved.
\<close>

definition MidiFile_header :: "bool \<Rightarrow> nat list \<Rightarrow> MidiFile" where
  "MidiFile_header halfSpeed fl =
     (let td = getShort fl 12
      in \<lparr>microsecondsPerQuarterNote = Some 500000,
          timeSignatureNumerator = Some 4,
          timeSignatureDenominator = 4,
          timeSignatureMetronomeInterval = Some 24,
          timeSignatureHemiDemiSemiNotesPerQuarterNote = Some 8,
          file_contents = fl,
          fileLength = length fl,
          isMidi_flag = isMidi fl,
          format = getShort fl 8,
          trackCount = getShort fl 10,
          timeDivision = (if halfSpeed then jdiv (num_of td) (Fin 2) else num_of td),
          framesPerSecond = (if bitand td 0x8000 \<noteq> 0 then Some (bitand td 0x7fff) else None),
          ticksPerBeat = (if bitand td 0x8000 \<noteq> 0 then None else Some td),
          chunkCount = 0,
          noteOns = 0,
          noteOffs = 0,
          midi_notes = [],
          channels = Map.empty,
          tracks = [],
          tempoMap = [],
          timeSignatureMap = []\<rparr>)"

text \<open>
  \<^verbatim>\<open>new MidiFile(filePath)\<close>, from the contents of the file. \<open>isCanceled\<close> is
  \<^verbatim>\<open>midiWndw.pb.isCanceled\<close>. The result is the object before the final
  \<^verbatim>\<open>this.notes.sort(...)\<close>, which reorders \<^verbatim>\<open>this.notes\<close> by time and changes no note
  (the order it gives to notes of equal time is left to the implementation).
\<close>

definition MidiFile :: "bool \<Rightarrow> bool \<Rightarrow> nat list \<Rightarrow> error + MidiFile" where
  "MidiFile halfSpeed isCanceled fl =
     (let m = MidiFile_header halfSpeed fl
      in if isCanceled then Inr m else chunk_loop fl m 14 0)"

subsection \<open>createBpmMap\<close>






section \<open>Definitions for the statements\<close>

text \<open>
  The elapsed seconds of a tick count in frames-per-second mode, in the words of the
  specification: ticks / (framesPerSecond \<times> ticksPerFrame). The reader has no such
  computation; the definition only states what is compared with \<open>getTime\<close>.
\<close>

definition smpte_seconds :: "nat \<Rightarrow> nat \<Rightarrow> nat \<Rightarrow> rat" where
  "smpte_seconds fps ticksPerFrame tk = of_nat tk / (of_nat fps * of_nat ticksPerFrame)"

text \<open>
  In an ascending tempo map, the tempo changes after position \<open>i\<close> lie at or after the
  tick the loop of \<open>getTime\<close> has reached.
\<close>

definition ahead :: "Tempo list \<Rightarrow> nat \<Rightarrow> nat \<Rightarrow> bool" where
  "ahead tm i tc = (\<forall>j. i < j \<longrightarrow> j < length tm \<longrightarrow> tc \<le> tick (tm ! j))"

text \<open>
  The test of the backward scan of \<open>addNote\<close>, \<^verbatim>\<open>note2.vel && note2.pitch == pitch\<close>, and
  the note with the two assignments of the scan made.
\<close>

definition scan_match :: "jsint \<Rightarrow> Note \<Rightarrow> bool" where
  "scan_match p n = (truthy_int (vel n) \<and> js_eq (pitch n) p)"

definition resolved :: "jsnum \<Rightarrow> jsnum \<Rightarrow> Note \<Rightarrow> Note" where
  "resolved t b n = n\<lparr>durTime := Some (jsub t (time n)), durBeats := Some (jsub b (beats n))\<rparr>"

text \<open>
  The references held by the channel \<open>ch\<close> (none when the channel does not exist yet),
  and the well-formedness of the references: each one is a position in \<^verbatim>\<open>this.notes\<close>.
\<close>

definition channel_refs :: "MidiFile \<Rightarrow> nat \<Rightarrow> nat list" where
  "channel_refs m ch = (case channels m ch of None \<Rightarrow> [] | Some c \<Rightarrow> channel_notes c)"

definition refs_valid :: "MidiFile \<Rightarrow> bool" where
  "refs_valid m =
     (\<forall>ch c. channels m ch = Some c \<longrightarrow> (\<forall>k\<in>set (channel_notes c). k < length (midi_notes m)))"

text \<open>
  A sequence of calls of \<open>addNote\<close>, each with its arguments (time, beats, channel, pitch,
  velocity), one after the other on the same object; an exception ends the sequence.
\<close>

fun addNotes ::
  "MidiFile \<Rightarrow> (jsnum \<times> jsnum \<times> nat \<times> jsint \<times> jsint) list \<Rightarrow> error + MidiFile" where
  "addNotes m [] = Inr m"
| "addNotes m ((t, b, ch, p, v) # cs) =
     (case addNote m t b ch p v of Inl e \<Rightarrow> Inl e | Inr m' \<Rightarrow> addNotes m' cs)"

definition only_note_ons_carry_duration :: "Note list \<Rightarrow> bool" where
  "only_note_ons_carry_duration ns =
     (\<forall>n\<in>set ns. durTime n \<noteq> None \<or> durBeats n \<noteq> None \<longrightarrow> truthy_int (vel n))"

text \<open>
  The object as the chunk loop hands it to the decoder of the first track (here of an
  empty file): no note, no channel, one track. \<open>one_note_on\<close> is this object after one
  note-on of pitch 60 on channel 0 at time 0.
\<close>

definition first_track :: MidiFile where
  "first_track = (MidiFile_header False [])\<lparr>tracks := [new_Track]\<rparr>"

definition one_note_on :: MidiFile where
  "one_note_on =
     first_track
       \<lparr>noteOns := 1,
        midi_notes := [\<lparr>time = Fin 0, beats = Fin 0, channel = 0, pitch = Some 60,
                        vel = Some 100, durTime = None, durBeats = None\<rparr>],
        channels := [0 \<mapsto> \<lparr>index = 0, trackIndex = 0, midiChannel = 0,
                            channel_notes = [0], insrument = None\<rparr>],
        tracks := [\<lparr>track_name = None, track_channels = [0]\<rparr>]\<rparr>"

text \<open>
  The filter of \<open>createBpmMap\<close> in the words of the specification. \<open>roundedBpm\<close> is the
  BPM of a tempo, 60000000 / microsecondsPerQuarterNote, rounded to \<open>d\<close> decimal places.
  \<open>kept_tempos\<close> always keeps the first tempo change, and keeps a later one if and only
  if its rounded BPM differs from the BPM of the last kept one by at least the
  threshold. \<open>bpm_entry\<close> is the \<^verbatim>\<open>BPM\<close> object of a kept tempo change.
\<close>

definition roundedBpm :: "nat \<Rightarrow> jsint \<Rightarrow> jsnum" where
  "roundedBpm d mpq =
     jdiv (jround (jmul (jdiv (Fin 60000000) (num_of mpq)) (Fin (10 ^ d)))) (Fin (10 ^ d))"



definition bpm_entry :: "MidiFile \<Rightarrow> nat \<Rightarrow> Tempo \<Rightarrow> BPM" where
  "bpm_entry m d t =
     \<lparr>second = getTime (tempoMap m) (timeDivision m) (tick t),
      bpm = roundedBpm d (tempo_microsecondsPerQuarterNote t),
      bpm_microsecondsPerQuarterNote = tempo_microsecondsPerQuarterNote t\<rparr>"


text \<open>
  Two files agree from offset \<open>k\<close>: they have the same length and the same bytes from
  \<open>k\<close> on. \<open>resigned fl m\<close> is the object \<open>m\<close> with \<^verbatim>\<open>this.file\<close> and \<^verbatim>\<open>this.isMidi\<close> as they
  are for the file \<open>fl\<close>.
\<close>

definition agree_from :: "nat \<Rightarrow> nat list \<Rightarrow> nat list \<Rightarrow> bool" where
  "agree_from k a b = (length a = length b \<and> drop k a = drop k b)"

definition resigned :: "nat list \<Rightarrow> MidiFile \<Rightarrow> MidiFile" where
  "resigned fl m = m\<lparr>file_contents := fl, isMidi_flag := isMidi fl\<rparr>"

text \<open>
  The parts of one iteration of the track loop, \<open>decodeEvent\<close>: the tick count, the
  times, the status byte and the cursor after it, the result of the \<^verbatim>\<open>switch\<close>, and the
  state for the next iteration.
\<close>

definition event_ticks :: "nat list \<Rightarrow> TrackState \<Rightarrow> nat" where
  "event_ticks fl st = ticks st + getVarVal fl (chunkOffset st)"

definition event_timed :: "nat list \<Rightarrow> MidiFile \<Rightarrow> TrackState \<Rightarrow> bool" where
  "event_timed fl m st =
     (event_ticks fl st \<noteq> 0 \<and> truthy (timeDivision m)
        \<and> truthy_int (microsecondsPerQuarterNote m))"

definition event_seconds :: "nat list \<Rightarrow> MidiFile \<Rightarrow> TrackState \<Rightarrow> jsnum" where
  "event_seconds fl m st =
     (if event_timed fl m st then getTime (tempoMap m) (timeDivision m) (event_ticks fl st)
      else seconds st)"

definition event_beats :: "nat list \<Rightarrow> MidiFile \<Rightarrow> TrackState \<Rightarrow> jsnum" where
  "event_beats fl m st =
     (if event_timed fl m st then jdiv (Fin (of_nat (event_ticks fl st))) (timeDivision m)
      else Fin 0)"

definition event_status :: "nat list \<Rightarrow> TrackState \<Rightarrow> nat" where
  "event_status fl st =
     (let off1 = chunkOffset st + getVarLen fl (chunkOffset st)
      in case charCodeAt fl off1 of
           Some c \<Rightarrow> if bitand (charCodeAt fl off1) 0x80 \<noteq> 0 then c else previousStatus st
         | None \<Rightarrow> previousStatus st)"

definition event_offset :: "nat list \<Rightarrow> TrackState \<Rightarrow> nat" where
  "event_offset fl st =
     (let off1 = chunkOffset st + getVarLen fl (chunkOffset st)
      in if bitand (charCodeAt fl off1) 0x80 \<noteq> 0 then off1 + 1 else off1)"

definition event_handled ::
  "nat list \<Rightarrow> nat \<Rightarrow> MidiFile \<Rightarrow> TrackState \<Rightarrow> error + MidiFile \<times> jsint" where
  "event_handled fl ct m st =
     (let status = event_status fl st;
          off = event_offset fl st;
          statusTop = (if status = 0xff then status else drop_bit 4 (status AND 0xf0));
          ch = ct * 16 + (status AND 0x0f)
      in if statusTop = 8
         then map_sum id (\<lambda>m'. (m', midiChannelPrefix st))
                (addNote m (event_seconds fl m st) (event_beats fl m st) ch
                   (charCodeAt fl off) (Some 0))
         else if statusTop = 9
         then map_sum id (\<lambda>m'. (m', midiChannelPrefix st))
                (addNote m (event_seconds fl m st) (event_beats fl m st) ch
                   (charCodeAt fl off) (charCodeAt fl (off + 1)))
         else if statusTop = 0xff
         then metaEvent fl ct m (event_ticks fl st) (midiChannelPrefix st) off (charCodeAt fl off)
         else Inr (m, midiChannelPrefix st))"

definition event_next :: "nat list \<Rightarrow> MidiFile \<Rightarrow> TrackState \<Rightarrow> jsint \<Rightarrow> TrackState option" where
  "event_next fl m st prefix' =
     (case getEventLength fl (event_status fl st) (event_offset fl st) of
        None \<Rightarrow> None
      | Some eventLength \<Rightarrow>
          Some \<lparr>chunkOffset = event_offset fl st + eventLength,
                previousStatus = event_status fl st,
                ticks = event_ticks fl st, midiChannelPrefix = prefix',
                seconds = event_seconds fl m st\<rparr>)"

section \<open>Properties\<close>

subsection \<open>Evaluating the loops\<close>

text \<open>
  The loops are unfolded one iteration at a time, by equations conditional on the test
  of the loop.
\<close>

lemma getVarLen_loop_cont:
  "bitand (charCodeAt fl off) 0x80 \<noteq> 0 \<Longrightarrow>
   getVarLen_loop fl r off = getVarLen_loop fl (r + 1) (off + 1)"
  by (subst getVarLen_loop.simps) simp

lemma getVarLen_loop_stop:
  "bitand (charCodeAt fl off) 0x80 = 0 \<Longrightarrow> getVarLen_loop fl r off = r"
  by (subst getVarLen_loop.simps) simp

lemma getVarVal_loop_cont:
  "bitand (charCodeAt fl off) 0x80 \<noteq> 0 \<Longrightarrow>
   getVarVal_loop fl r off =
     getVarVal_loop fl (r * 128 + bitand (charCodeAt fl off) 0x7f) (off + 1)"
  by (subst getVarVal_loop.simps) (simp add: Let_def)

lemma getVarVal_loop_stop:
  "bitand (charCodeAt fl off) 0x80 = 0 \<Longrightarrow>
   getVarVal_loop fl r off = r * 128 + bitand (charCodeAt fl off) 0x7f"
  by (subst getVarVal_loop.simps) (simp add: Let_def)

lemmas vlq_eval = getVarVal_def getVarLen_def getVarVal_loop_cont getVarVal_loop_stop
  getVarLen_loop_cont getVarLen_loop_stop charCodeAt_def bitand_def

lemma getVarLen_loop_run:
  assumes "\<forall>i<n. bitand (charCodeAt fl (off + i)) 0x80 \<noteq> 0"
    and "bitand (charCodeAt fl (off + n)) 0x80 = 0"
  shows "getVarLen_loop fl r off = r + n"
  using assms
proof (induction n arbitrary: off r)
  case 0
  then show ?case by (simp add: getVarLen_loop_stop)
next
  case (Suc n)
  from Suc.prems(1) have hd: "bitand (charCodeAt fl off) 0x80 \<noteq> 0"
    by (metis add.right_neutral zero_less_Suc)
  have tl: "\<forall>i<n. bitand (charCodeAt fl (off + 1 + i)) 0x80 \<noteq> 0"
  proof (intro allI impI)
    fix i assume "i < n"
    then have "Suc i < Suc n" by simp
    with Suc.prems(1) have "bitand (charCodeAt fl (off + Suc i)) 0x80 \<noteq> 0"
      by blast
    then show "bitand (charCodeAt fl (off + 1 + i)) 0x80 \<noteq> 0" by simp
  qed
  have "getVarLen_loop fl (r + 1) (off + 1) = r + 1 + n"
    using Suc.IH [OF tl] Suc.prems(2) by simp
  with hd show ?case by (simp add: getVarLen_loop_cont)
qed

lemma getVarVal_loop_run:
  assumes "\<forall>i<n. bitand (charCodeAt fl (off + i)) 0x80 \<noteq> 0"
    and "bitand (charCodeAt fl (off + n)) 0x80 = 0"
  shows "getVarVal_loop fl r off =
           foldl (\<lambda>r b. r * 128 + bitand b 0x7f) r (map (charCodeAt fl) [off..<off + n + 1])"
  using assms
proof (induction n arbitrary: off r)
  case 0
  then show ?case by (simp add: getVarVal_loop_stop)
next
  case (Suc n)
  from Suc.prems(1) have hd: "bitand (charCodeAt fl off) 0x80 \<noteq> 0"
    by (metis add.right_neutral zero_less_Suc)
  have tl: "\<forall>i<n. bitand (charCodeAt fl (off + 1 + i)) 0x80 \<noteq> 0"
  proof (intro allI impI)
    fix i assume "i < n"
    then have "Suc i < Suc n" by simp
    with Suc.prems(1) have "bitand (charCodeAt fl (off + Suc i)) 0x80 \<noteq> 0"
      by blast
    then show "bitand (charCodeAt fl (off + 1 + i)) 0x80 \<noteq> 0" by simp
  qed
  have ih: "getVarVal_loop fl r' (off + 1) =
      foldl (\<lambda>r b. r * 128 + bitand b 0x7f) r' (map (charCodeAt fl) [off + 1..<off + 1 + n + 1])" for r'
    using Suc.IH [OF tl] Suc.prems(2) by simp
  have ran: "[off..<off + Suc n + 1] = off # [off + 1..<off + 1 + n + 1]"
    by (simp add: upt_conv_Cons)
  show ?case
    unfolding ran getVarVal_loop_cont [OF hd] ih by simp
qed

lemma getTime_loop_exit:
  "\<not> tc < target \<Longrightarrow> getTime_loop tm td target s cur tc prev i = s"
  by (subst getTime_loop.simps) simp

lemma getTime_loop_last:
  "tc < target \<Longrightarrow> i < length tm \<Longrightarrow> length tm \<le> i + 1 \<Longrightarrow>
   getTime_loop tm td target s cur tc prev i =
     getTime_loop tm td target
       (addSeconds s (tempo_microsecondsPerQuarterNote (tm ! i)) target prev td)
       (tempo_microsecondsPerQuarterNote (tm ! i)) target target (i + 1)"
  by (subst getTime_loop.simps) (simp add: Let_def)

lemma getTime_loop_within:
  "tc < target \<Longrightarrow> i + 1 < length tm \<Longrightarrow> target \<le> tick (tm ! (i + 1)) \<Longrightarrow>
   getTime_loop tm td target s cur tc prev i =
     getTime_loop tm td target
       (addSeconds s (tempo_microsecondsPerQuarterNote (tm ! i)) target prev td)
       (tempo_microsecondsPerQuarterNote (tm ! i)) target target (i + 1)"
  by (subst getTime_loop.simps) (simp add: Let_def)

lemma getTime_loop_next:
  "tc < target \<Longrightarrow> i + 1 < length tm \<Longrightarrow> tick (tm ! (i + 1)) < target \<Longrightarrow>
   getTime_loop tm td target s cur tc prev i =
     getTime_loop tm td target
       (addSeconds s (tempo_microsecondsPerQuarterNote (tm ! i)) (tick (tm ! (i + 1))) prev td)
       (tempo_microsecondsPerQuarterNote (tm ! i)) (tick (tm ! (i + 1)))
       (tick (tm ! (i + 1))) (i + 1)"
  by (subst getTime_loop.simps) (simp add: Let_def)

lemma getTime_loop_past:
  "tc < target \<Longrightarrow> length tm \<le> i \<Longrightarrow>
   getTime_loop tm td target s cur tc prev i =
     getTime_loop tm td target (addSeconds s cur target prev td) cur target target i"
  by (subst getTime_loop.simps) simp

lemmas getTime_eval = getTime_def getTime_loop_exit getTime_loop_last getTime_loop_within
  getTime_loop_next getTime_loop_past addSeconds_def num_of_def

lemma addSeconds_Fin:
  "D \<noteq> 0 \<Longrightarrow> addSeconds (Fin s) (Some c) tc prev (Fin D) =
     Fin (s + of_nat c * (of_nat tc - of_nat prev) / D / 1000000)"
  by (simp add: addSeconds_def num_of_def)

lemma getTime_no_tempo:
  assumes "D \<noteq> 0"
  shows "getTime [] (Fin D) tk = Fin (of_nat tk * 500000 / D / 1000000)"
proof (cases "tk = 0")
  case True
  then show ?thesis by (simp add: getTime_def getTime_loop_exit)
next
  case False
  then have pos: "0 < tk" by simp
  show ?thesis
    unfolding getTime_def
    by (simp add: getTime_loop_past [OF pos] getTime_loop_exit addSeconds_Fin [OF assms])
qed

lemma getTime_one_tempo:
  assumes "D \<noteq> 0"
  shows "getTime [\<lparr>tick = t0, tempo_microsecondsPerQuarterNote = Some T\<rparr>] (Fin D) tk =
           Fin (of_nat tk * of_nat T / D / 1000000)"
proof (cases "tk = 0")
  case True
  then show ?thesis by (simp add: getTime_def getTime_loop_exit)
next
  case False
  then have pos: "0 < tk" by simp
  show ?thesis
    unfolding getTime_def
    by (simp add: getTime_loop_last [OF pos] getTime_loop_exit addSeconds_Fin [OF assms])
qed

lemmas addNote_eval = addNote_def findChannel_def new_Channel_def Let_def truthy_int_def
  js_eq_def jsub_def new_Track_def


lemma track_loop_stop:
  "\<not> chunkOffset st < chunkEnd \<Longrightarrow> track_loop fl ct chunkEnd m st = Inr m"
  by (subst track_loop.simps) simp

lemma track_loop_step:
  "chunkOffset st < chunkEnd \<Longrightarrow>
   track_loop fl ct chunkEnd m st =
     (case decodeEvent fl ct m st of
        Inl e \<Rightarrow> Inl e
      | Inr (m', None) \<Rightarrow> Inr m'
      | Inr (m', Some st') \<Rightarrow> track_loop fl ct chunkEnd m' st')"
  by (subst track_loop.simps) simp

lemma chunk_loop_stop:
  "\<not> offset < length fl \<Longrightarrow> chunk_loop fl m offset ct = Inr m"
  by (subst chunk_loop.simps) simp

lemma chunk_loop_step:
  "offset < length fl \<Longrightarrow>
   chunk_loop fl m offset ct =
     (let chunkType = substring fl offset (offset + 4);
          chunkLength = getLong fl (offset + 4);
          m1 = m\<lparr>chunkCount := chunkCount m + 1\<rparr>
      in if chunkType = map of_char ''MTrk''
         then let m2 = m1\<lparr>tracks := tracks m1 @ [new_Track]\<rparr>
              in (case chunkLength of
                    None \<Rightarrow> Inr m2
                  | Some len \<Rightarrow>
                      (case track_loop fl ct (offset + 8 + len) m2
                              \<lparr>chunkOffset = offset + 8, previousStatus = 0, ticks = 0,
                               midiChannelPrefix = Some 0, seconds = Fin 0\<rparr> of
                         Inl e \<Rightarrow> Inl e
                       | Inr m3 \<Rightarrow> chunk_loop fl m3 (offset + 8 + len) (ct + 1)))
         else (case chunkLength of
                 None \<Rightarrow> Inr m1
               | Some len \<Rightarrow> chunk_loop fl m1 (offset + 8 + len) ct))"
  by (subst chunk_loop.simps) simp

lemmas decode_eval = MidiFile_def MidiFile_header_def isMidi_def substring_def
  getShort_def getLong_def getInt24_def getByte_def
  chunk_loop_stop chunk_loop_step track_loop_stop track_loop_step decodeEvent_def
  metaEvent_def getEventLength_def vlq_eval addNote_eval getTime_def getTime_loop_exit

subsection \<open>Variable-length quantities\<close>

text \<open>
  C8. The standard encodings of 0, 127, 128, 16383 and 16384 as variable-length
  quantities are the byte strings \<^verbatim>\<open>00\<close>, \<^verbatim>\<open>7F\<close>, \<^verbatim>\<open>81 00\<close>, \<^verbatim>\<open>FF 7F\<close> and \<^verbatim>\<open>81 80 00\<close>.
  \<open>getVarVal\<close> decodes each of them to the value it encodes and \<open>getVarLen\<close> reports
  1, 1, 2, 2 and 3 bytes. In general, when the \<open>n\<close> bytes from \<open>off\<close> have their high bit set
  and the next byte has it clear, the decoder reads exactly these \<open>n + 1\<close> bytes, the last
  one included, and accumulates \<open>result * 128 + (byte & 0x7f)\<close> over them.
\<close>

theorem vlq_round_trip:
  "getVarVal [0x00] 0 = 0 \<and> getVarLen [0x00] 0 = 1 \<and>
   getVarVal [0x7f] 0 = 127 \<and> getVarLen [0x7f] 0 = 1 \<and>
   getVarVal [0x81, 0x00] 0 = 128 \<and> getVarLen [0x81, 0x00] 0 = 2 \<and>
   getVarVal [0xff, 0x7f] 0 = 16383 \<and> getVarLen [0xff, 0x7f] 0 = 2 \<and>
   getVarVal [0x81, 0x80, 0x00] 0 = 16384 \<and> getVarLen [0x81, 0x80, 0x00] 0 = 3 \<and>
   (\<forall>fl off n.
      (\<forall>i<n. bitand (charCodeAt fl (off + i)) 0x80 \<noteq> 0) \<and>
      bitand (charCodeAt fl (off + n)) 0x80 = 0 \<longrightarrow>
      getVarLen fl off = n + 1 \<and>
      getVarVal fl off =
        foldl (\<lambda>r b. r * 128 + bitand b 0x7f) 0 (map (charCodeAt fl) [off..<off + n + 1]))"
proof -
  have five: "getVarVal [0x00] 0 = 0" "getVarLen [0x00] 0 = 1"
    "getVarVal [0x7f] 0 = 127" "getVarLen [0x7f] 0 = 1"
    "getVarVal [0x81, 0x00] 0 = 128" "getVarLen [0x81, 0x00] 0 = 2"
    "getVarVal [0xff, 0x7f] 0 = 16383" "getVarLen [0xff, 0x7f] 0 = 2"
    "getVarVal [0x81, 0x80, 0x00] 0 = 16384" "getVarLen [0x81, 0x80, 0x00] 0 = 3"
    by (simp_all add: vlq_eval)
  have gen: "getVarLen fl off = n + 1 \<and>
      getVarVal fl off =
        foldl (\<lambda>r b. r * 128 + bitand b 0x7f) 0 (map (charCodeAt fl) [off..<off + n + 1])"
    if "\<forall>i<n. bitand (charCodeAt fl (off + i)) 0x80 \<noteq> 0"
      and "bitand (charCodeAt fl (off + n)) 0x80 = 0" for fl off n
    using getVarLen_loop_run [OF that, of 1] getVarVal_loop_run [OF that, of 0]
    by (simp add: getVarLen_def getVarVal_def)
  from five gen show ?thesis by blast
qed

text \<open>
  The general part at a delta time in the middle of a file: the three bytes
  \<^verbatim>\<open>81 80 00\<close> at offset 1, followed by another byte.
\<close>

theorem vlq_round_trip_witness:
  "bitand (charCodeAt [0x90, 0x81, 0x80, 0x00, 0x3c] (1 + 0)) 0x80 \<noteq> 0 \<and>
   bitand (charCodeAt [0x90, 0x81, 0x80, 0x00, 0x3c] (1 + 1)) 0x80 \<noteq> 0 \<and>
   bitand (charCodeAt [0x90, 0x81, 0x80, 0x00, 0x3c] (1 + 2)) 0x80 = 0 \<and>
   getVarLen [0x90, 0x81, 0x80, 0x00, 0x3c] 1 = 3 \<and>
   getVarVal [0x90, 0x81, 0x80, 0x00, 0x3c] 1 = 16384"
proof -
  have a0: "bitand (charCodeAt [0x90, 0x81, 0x80, 0x00, 0x3c] (1 + 0)) 0x80 \<noteq> 0"
    and a1: "bitand (charCodeAt [0x90, 0x81, 0x80, 0x00, 0x3c] (1 + 1)) 0x80 \<noteq> 0"
    by (simp_all add: charCodeAt_def bitand_def)
  have a: "\<forall>i<2. bitand (charCodeAt [0x90, 0x81, 0x80, 0x00, 0x3c] (1 + i)) 0x80 \<noteq> 0"
    by (simp add: charCodeAt_def bitand_def less_Suc_eq numeral_2_eq_2)
  have b: "bitand (charCodeAt [0x90, 0x81, 0x80, 0x00, 0x3c] (1 + 2)) 0x80 = 0"
    by (simp add: charCodeAt_def bitand_def)
  from vlq_round_trip have "getVarLen [0x90, 0x81, 0x80, 0x00, 0x3c] 1 = 2 + 1 \<and>
      getVarVal [0x90, 0x81, 0x80, 0x00, 0x3c] 1 =
        foldl (\<lambda>r b. r * 128 + bitand b 0x7f) 0
          (map (charCodeAt [0x90, 0x81, 0x80, 0x00, 0x3c]) [1..<1 + 2 + 1])"
    using a b by blast
  then have "getVarLen [0x90, 0x81, 0x80, 0x00, 0x3c] 1 = 3 \<and>
      getVarVal [0x90, 0x81, 0x80, 0x00, 0x3c] 1 = 16384"
    by (simp add: charCodeAt_def bitand_def upt_conv_Cons)
  with a0 a1 b show ?thesis by blast
qed

subsection \<open>getTime\<close>

text \<open>
  C7. With a tempo map of one tempo change, \<open>T\<close> microseconds per quarter note at tick 0,
  and a positive division \<open>D\<close>, \<open>getTime\<close> of a tick count is
  \<open>ticks * T / D / 1000000\<close>, in exact rational arithmetic.
\<close>

theorem getTime_constant_tempo:
  assumes "0 < D"
  shows "getTime [\<lparr>tick = 0, tempo_microsecondsPerQuarterNote = Some T\<rparr>] (Fin D) tk =
           Fin (of_nat tk * of_nat T / D / 1000000)"
proof (cases "tk = 0")
  case True
  then show ?thesis by (simp add: getTime_def getTime_loop_exit)
next
  case False
  then have pos: "0 < tk" by simp
  have D: "D \<noteq> 0" using assms by simp
  show ?thesis
    unfolding getTime_def
    by (simp add: getTime_loop_last [OF pos] getTime_loop_exit addSeconds_Fin [OF D])
qed

theorem getTime_constant_tempo_witness:
  "(0::rat) < 480 \<and>
   getTime [\<lparr>tick = 0, tempo_microsecondsPerQuarterNote = Some 500000\<rparr>] (Fin 480) 960 = Fin 1"
proof -
  have h: "(0::rat) < 480" by simp
  show ?thesis using h getTime_constant_tempo [OF h, of 500000 960] by simp
qed

text \<open>
  C2. The claim integrates the ticks before the first tempo change at 500000
  microseconds per quarter note. \<open>getTime\<close> never reads the tick of the first entry of
  the tempo map: with one tempo change of 1000000 at tick 480 and a division of 480, it
  times tick 240 at the new tempo, 0.5 s, not at 0.25 s. With the tempo map still empty,
  as it is while the events before the tempo change are decoded, the same tick is timed
  0.25 s. So in a track of a note-on at tick 240, a tempo change to 125000 at tick 480
  and a note-on at tick 481, the first note is at 0.25 s and the second one, 241 ticks
  later, at 481 / 3840 s, before the first.
\<close>

theorem getTime_first_tempo_from_tick_0:
  "getTime [\<lparr>tick = 480, tempo_microsecondsPerQuarterNote = Some 1000000\<rparr>] (Fin 480) 240
     = Fin (1 / 2) \<and>
   getTime [] (Fin 480) 240 = Fin (1 / 4) \<and>
   map_sum id (\<lambda>m. (map time (midi_notes m), tempoMap m))
     (MidiFile False False
        [77, 84, 104, 100, 0, 0, 0, 6, 0, 0, 0, 1, 1, 224,
         77, 84, 114, 107, 0, 0, 0, 17,
         0x81, 0x70, 0x90, 60, 100,
         0x81, 0x70, 0xff, 0x51, 3, 0x01, 0xe8, 0x48,
         1, 0x90, 62, 100])
     = Inr ([Fin (1 / 4), Fin (481 / 3840)],
            [\<lparr>tick = 480, tempo_microsecondsPerQuarterNote = Some 125000\<rparr>])"
proof -
  have "map_sum id (\<lambda>m. (map time (midi_notes m), tempoMap m))
     (MidiFile False False
        [77, 84, 104, 100, 0, 0, 0, 6, 0, 0, 0, 1, 1, 224,
         77, 84, 114, 107, 0, 0, 0, 17,
         0x81, 0x70, 0x90, 60, 100,
         0x81, 0x70, 0xff, 0x51, 3, 0x01, 0xe8, 0x48,
         1, 0x90, 62, 100])
     = Inr ([Fin (1 / 4), Fin (481 / 3840)],
            [\<lparr>tick = 480, tempo_microsecondsPerQuarterNote = Some 125000\<rparr>])"
    by (simp add: decode_eval getTime_eval addTempo_def)
  then show ?thesis by (simp add: getTime_eval)
qed

lemma seg_nonneg:
  fixes D :: rat
  assumes "0 < D" "a \<le> b"
  shows "0 \<le> of_nat c * (of_nat b - of_nat a) / D / 1000000"
proof -
  have "(0::rat) \<le> of_nat b - of_nat a" using assms(2) by simp
  then have "(0::rat) \<le> of_nat c * (of_nat b - of_nat a)" by simp
  then show ?thesis using assms(1) by simp
qed

lemma seg_mono:
  fixes D :: rat
  assumes "0 < D" "b \<le> b'"
  shows "of_nat c * (of_nat b - of_nat a) / D / 1000000
           \<le> of_nat c * (of_nat b' - of_nat a) / D / 1000000"
proof -
  have "(of_nat b :: rat) - of_nat a \<le> of_nat b' - of_nat a" using assms(2) by simp
  then have "(of_nat c :: rat) * (of_nat b - of_nat a) \<le> of_nat c * (of_nat b' - of_nat a)"
    by (rule mult_left_mono) simp
  then have "of_nat c * (of_nat b - of_nat a) / D \<le> of_nat c * (of_nat b' - of_nat a) / D"
    using assms(1) by (simp add: divide_right_mono)
  then show ?thesis by (rule divide_right_mono) simp
qed

lemma ahead_next:
  assumes "sorted_wrt (<) (map tick tm)" "i + 1 < length tm"
  shows "ahead tm (i + 1) (tick (tm ! (i + 1)))"
  unfolding ahead_def
proof (intro allI impI)
  fix j assume "i + 1 < j" "j < length tm"
  from assms(1) have "sorted_wrt (\<lambda>x y. tick x < tick y) tm"
    by (simp add: sorted_wrt_map)
  from sorted_wrt_nth_less [OF this \<open>i + 1 < j\<close> \<open>j < length tm\<close>]
  have "tick (tm ! (i + 1)) < tick (tm ! j)" .
  then show "tick (tm ! (i + 1)) \<le> tick (tm ! j)" by simp
qed

lemma getTime_loop_lower:
  assumes D: "0 < D"
    and srt: "sorted_wrt (<) (map tick tm)"
    and pos: "\<forall>t\<in>set tm. truthy_int (tempo_microsecondsPerQuarterNote t)"
  shows "ahead tm i tc \<Longrightarrow>
         \<exists>r. getTime_loop tm (Fin D) target (Fin s) (Some c) tc tc i = Fin r \<and> s \<le> r"
proof (induction "length tm - i" arbitrary: i s c tc)
  case 0
  have D0: "D \<noteq> 0" using D by simp
  show ?case
  proof (cases "tc < target")
    case False
    then show ?thesis by (simp add: getTime_loop_exit)
  next
    case True
    from 0 have "length tm \<le> i" by simp
    then have "getTime_loop tm (Fin D) target (Fin s) (Some c) tc tc i =
        Fin (s + of_nat c * (of_nat target - of_nat tc) / D / 1000000)"
      using True by (simp add: getTime_loop_past getTime_loop_exit addSeconds_Fin [OF D0])
    moreover have "0 \<le> of_nat c * (of_nat target - of_nat tc) / D / 1000000"
      using True by (intro seg_nonneg [OF D]) simp
    ultimately show ?thesis by simp
  qed
next
  case (Suc n)
  have D0: "D \<noteq> 0" using D by simp
  from Suc.hyps(2) have i: "i < length tm" by simp
  with pos have "truthy_int (tempo_microsecondsPerQuarterNote (tm ! i))" by simp
  then obtain ci where ci: "tempo_microsecondsPerQuarterNote (tm ! i) = Some ci"
    by (auto simp: truthy_int_def split: option.splits)
  show ?case
  proof (cases "tc < target")
    case False
    then show ?thesis by (simp add: getTime_loop_exit)
  next
    case True
    have one: "0 \<le> of_nat ci * (of_nat target - of_nat tc) / D / 1000000"
      using True by (intro seg_nonneg [OF D]) simp
    show ?thesis
    proof (cases "length tm \<le> i + 1")
      case True
      then have "getTime_loop tm (Fin D) target (Fin s) (Some c) tc tc i =
          Fin (s + of_nat ci * (of_nat target - of_nat tc) / D / 1000000)"
        using \<open>tc < target\<close> i
        by (simp add: getTime_loop_last getTime_loop_exit ci addSeconds_Fin [OF D0])
      with one show ?thesis by simp
    next
      case False
      then have i1: "i + 1 < length tm" by simp
      show ?thesis
      proof (cases "target \<le> tick (tm ! (i + 1))")
        case True
        then have "getTime_loop tm (Fin D) target (Fin s) (Some c) tc tc i =
            Fin (s + of_nat ci * (of_nat target - of_nat tc) / D / 1000000)"
          using \<open>tc < target\<close> i1
          by (simp add: getTime_loop_within getTime_loop_exit ci addSeconds_Fin [OF D0])
        with one show ?thesis by simp
      next
        case False
        then have lt: "tick (tm ! (i + 1)) < target" by simp
        let ?b = "tick (tm ! (i + 1))"
        let ?s' = "s + of_nat ci * (of_nat ?b - of_nat tc) / D / 1000000"
        have step: "getTime_loop tm (Fin D) target (Fin s) (Some c) tc tc i =
            getTime_loop tm (Fin D) target (Fin ?s') (Some ci) ?b ?b (i + 1)"
          using \<open>tc < target\<close> i1 lt
          by (simp add: getTime_loop_next ci addSeconds_Fin [OF D0])
        have "tc \<le> ?b" using Suc.prems i1 by (simp add: ahead_def)
        then have seg: "0 \<le> of_nat ci * (of_nat ?b - of_nat tc) / D / 1000000"
          by (rule seg_nonneg [OF D])
        have "n = length tm - (i + 1)" using Suc.hyps(2) by simp
        from Suc.hyps(1) [OF this ahead_next [OF srt i1]]
        obtain r where "getTime_loop tm (Fin D) target (Fin ?s') (Some ci) ?b ?b (i + 1) = Fin r"
          and "?s' \<le> r" by blast
        with step seg show ?thesis by simp
      qed
    qed
  qed
qed


lemma getTime_loop_mono:
  assumes D: "0 < D"
    and srt: "sorted_wrt (<) (map tick tm)"
    and pos: "\<forall>t\<in>set tm. truthy_int (tempo_microsecondsPerQuarterNote t)"
    and le: "t1 \<le> t2"
  shows "ahead tm i tc \<Longrightarrow>
         \<exists>a b. getTime_loop tm (Fin D) t1 (Fin s) (Some c) tc tc i = Fin a \<and>
               getTime_loop tm (Fin D) t2 (Fin s) (Some c) tc tc i = Fin b \<and> a \<le> b"
proof (induction "length tm - i" arbitrary: i s c tc)
  case 0
  have D0: "D \<noteq> 0" using D by simp
  from 0 have past: "length tm \<le> i" by simp
  show ?case
  proof (cases "tc < t1")
    case False
    then have "getTime_loop tm (Fin D) t1 (Fin s) (Some c) tc tc i = Fin s"
      by (simp add: getTime_loop_exit)
    with getTime_loop_lower [OF D srt pos "0.prems", of t2 s c] show ?thesis by auto
  next
    case True
    then have "tc < t2" using le by simp
    have "getTime_loop tm (Fin D) t1 (Fin s) (Some c) tc tc i =
        Fin (s + of_nat c * (of_nat t1 - of_nat tc) / D / 1000000)"
      using True past by (simp add: getTime_loop_past getTime_loop_exit addSeconds_Fin [OF D0])
    moreover have "getTime_loop tm (Fin D) t2 (Fin s) (Some c) tc tc i =
        Fin (s + of_nat c * (of_nat t2 - of_nat tc) / D / 1000000)"
      using \<open>tc < t2\<close> past
      by (simp add: getTime_loop_past getTime_loop_exit addSeconds_Fin [OF D0])
    ultimately show ?thesis using seg_mono [OF D le, of c tc] by simp
  qed
next
  case (Suc n)
  have D0: "D \<noteq> 0" using D by simp
  from Suc.hyps(2) have i: "i < length tm" by simp
  with pos have "truthy_int (tempo_microsecondsPerQuarterNote (tm ! i))" by simp
  then obtain ci where ci: "tempo_microsecondsPerQuarterNote (tm ! i) = Some ci"
    by (auto simp: truthy_int_def split: option.splits)
  show ?case
  proof (cases "tc < t1")
    case False
    then have "getTime_loop tm (Fin D) t1 (Fin s) (Some c) tc tc i = Fin s"
      by (simp add: getTime_loop_exit)
    with getTime_loop_lower [OF D srt pos Suc.prems, of t2 s c] show ?thesis by auto
  next
    case True
    then have lt2: "tc < t2" using le by simp
    show ?thesis
    proof (cases "length tm \<le> i + 1")
      case True
      have "getTime_loop tm (Fin D) t1 (Fin s) (Some c) tc tc i =
          Fin (s + of_nat ci * (of_nat t1 - of_nat tc) / D / 1000000)"
        using \<open>tc < t1\<close> i True
        by (simp add: getTime_loop_last getTime_loop_exit ci addSeconds_Fin [OF D0])
      moreover have "getTime_loop tm (Fin D) t2 (Fin s) (Some c) tc tc i =
          Fin (s + of_nat ci * (of_nat t2 - of_nat tc) / D / 1000000)"
        using lt2 i True
        by (simp add: getTime_loop_last getTime_loop_exit ci addSeconds_Fin [OF D0])
      ultimately show ?thesis using seg_mono [OF D le, of ci tc] by simp
    next
      case False
      then have i1: "i + 1 < length tm" by simp
      let ?b = "tick (tm ! (i + 1))"
      let ?s' = "s + of_nat ci * (of_nat ?b - of_nat tc) / D / 1000000"
      have n: "n = length tm - (i + 1)" using Suc.hyps(2) by simp
      have within: "getTime_loop tm (Fin D) t (Fin s) (Some c) tc tc i =
          Fin (s + of_nat ci * (of_nat t - of_nat tc) / D / 1000000)"
        if "tc < t" "t \<le> ?b" for t
        using that i1
        by (simp add: getTime_loop_within getTime_loop_exit ci addSeconds_Fin [OF D0])
      have onward: "getTime_loop tm (Fin D) t (Fin s) (Some c) tc tc i =
          getTime_loop tm (Fin D) t (Fin ?s') (Some ci) ?b ?b (i + 1)"
        if "tc < t" "?b < t" for t
        using that i1 by (simp add: getTime_loop_next ci addSeconds_Fin [OF D0])
      show ?thesis
      proof (cases "t2 \<le> ?b")
        case True
        then have "t1 \<le> ?b" using le by simp
        from within [OF \<open>tc < t1\<close> this] within [OF lt2 True] seg_mono [OF D le, of ci tc]
        show ?thesis by simp
      next
        case False
        then have b2: "?b < t2" by simp
        show ?thesis
        proof (cases "t1 \<le> ?b")
          case True
          from getTime_loop_lower [OF D srt pos ahead_next [OF srt i1], of t2 ?s' ci]
          obtain r where r: "getTime_loop tm (Fin D) t2 (Fin ?s') (Some ci) ?b ?b (i + 1) = Fin r"
            and "?s' \<le> r" by blast
          moreover have "s + of_nat ci * (of_nat t1 - of_nat tc) / D / 1000000 \<le> ?s'"
            using seg_mono [OF D True, of ci tc] by simp
          ultimately have "s + of_nat ci * (of_nat t1 - of_nat tc) / D / 1000000 \<le> r"
            by simp
          with within [OF \<open>tc < t1\<close> True] onward [OF lt2 b2] r show ?thesis by simp
        next
          case False
          then have b1: "?b < t1" by simp
          from Suc.hyps(1) [OF n ahead_next [OF srt i1], of ?s' ci]
            onward [OF \<open>tc < t1\<close> b1] onward [OF lt2 b2]
          show ?thesis by simp
        qed
      qed
    qed
  qed
qed

text \<open>
  C6. \<open>getTime 0 = 0\<close>, and over a tempo map strictly ascending by tick, with positive
  microseconds per quarter note and a positive division, \<open>getTime\<close> is non-decreasing.
\<close>

theorem getTime_monotone:
  assumes "0 < D"
    and "sorted_wrt (<) (map tick tm)"
    and "\<forall>t\<in>set tm. truthy_int (tempo_microsecondsPerQuarterNote t)"
    and "t1 \<le> t2"
  shows "getTime tm (Fin D) 0 = Fin 0 \<and> jle (getTime tm (Fin D) t1) (getTime tm (Fin D) t2)"
proof -
  have "ahead tm 0 0" by (simp add: ahead_def)
  from getTime_loop_mono [OF assms this, of 0 500000]
  have "jle (getTime tm (Fin D) t1) (getTime tm (Fin D) t2)"
    by (auto simp: getTime_def jle_def)
  then show ?thesis by (simp add: getTime_def getTime_loop_exit)
qed

theorem getTime_monotone_witness:
  "(0::rat) < 480 \<and>
   sorted_wrt (<) (map tick
       [\<lparr>tick = 0, tempo_microsecondsPerQuarterNote = Some 500000\<rparr>,
        \<lparr>tick = 480, tempo_microsecondsPerQuarterNote = Some 250000\<rparr>,
        \<lparr>tick = 960, tempo_microsecondsPerQuarterNote = Some 1000000\<rparr>]) \<and>
   (700::nat) \<le> 1200 \<and>
   getTime [\<lparr>tick = 0, tempo_microsecondsPerQuarterNote = Some 500000\<rparr>,
        \<lparr>tick = 480, tempo_microsecondsPerQuarterNote = Some 250000\<rparr>,
        \<lparr>tick = 960, tempo_microsecondsPerQuarterNote = Some 1000000\<rparr>] (Fin 480) 700
     = Fin (59 / 96) \<and>
   getTime [\<lparr>tick = 0, tempo_microsecondsPerQuarterNote = Some 500000\<rparr>,
        \<lparr>tick = 480, tempo_microsecondsPerQuarterNote = Some 250000\<rparr>,
        \<lparr>tick = 960, tempo_microsecondsPerQuarterNote = Some 1000000\<rparr>] (Fin 480) 1200
     = Fin (5 / 4) \<and>
   jle (Fin (59 / 96)) (Fin (5 / 4))"
proof -
  let ?tm = "[\<lparr>tick = 0, tempo_microsecondsPerQuarterNote = Some 500000\<rparr>,
        \<lparr>tick = 480, tempo_microsecondsPerQuarterNote = Some 250000\<rparr>,
        \<lparr>tick = 960, tempo_microsecondsPerQuarterNote = Some 1000000\<rparr>]"
  have h1: "(0::rat) < 480" by simp
  have h2: "sorted_wrt (<) (map tick ?tm)" by simp
  have h3: "\<forall>t\<in>set ?tm. truthy_int (tempo_microsecondsPerQuarterNote t)"
    by (simp add: truthy_int_def)
  have h4: "(700::nat) \<le> 1200" by simp
  have v1: "getTime ?tm (Fin 480) 700 = Fin (59 / 96)" by (simp add: getTime_eval)
  have v2: "getTime ?tm (Fin 480) 1200 = Fin (5 / 4)" by (simp add: getTime_eval)
  from getTime_monotone [OF h1 h2 h3 h4] have "jle (Fin (59 / 96)) (Fin (5 / 4))"
    by (simp only: v1 v2)
  with h1 h2 h4 v1 v2 show ?thesis by blast
qed

subsection \<open>getEventLength\<close>

text \<open>
  C5. \<open>getEventLength\<close> tests the status for \<^verbatim>\<open>0xff\<close> and \<^verbatim>\<open>0xf0\<close> only ("meta or sysex"):
  for the status \<^verbatim>\<open>0xf7\<close> it returns no length, where the claim has the same length as
  for \<^verbatim>\<open>0xf0\<close> and a meta event. The cursor is then NaN and the loop over the track
  ends: in a track of an \<^verbatim>\<open>F7\<close> event of one byte followed by a note-on, the note-on is
  never decoded and the object is unchanged.
\<close>

theorem getEventLength_F7_undefined:
  "getEventLength fl 0xf7 off = None \<and>
   getEventLength fl 0xf0 off = Some (getVarVal fl (off + 1) + getVarLen fl (off + 1) + 1) \<and>
   getEventLength fl 0xff off = Some (getVarVal fl (off + 1) + getVarLen fl (off + 1) + 1) \<and>
   track_loop [0, 0xf7, 1, 0, 0, 0x90, 0x3c, 0x64] 0 8 m
     \<lparr>chunkOffset = 0, previousStatus = 0, ticks = 0, midiChannelPrefix = Some 0,
      seconds = Fin 0\<rparr> = Inr m"
proof -
  have "track_loop [0, 0xf7, 1, 0, 0, 0x90, 0x3c, 0x64] 0 8 m
     \<lparr>chunkOffset = 0, previousStatus = 0, ticks = 0, midiChannelPrefix = Some 0,
      seconds = Fin 0\<rparr> = Inr m"
    by (simp add: track_loop_step decodeEvent_def getEventLength_def vlq_eval Let_def)
  then show ?thesis by (simp add: getEventLength_def)
qed

subsection \<open>The division field\<close>

text \<open>
  C4, as claimed: with the high bit of the division set, the elapsed seconds are
  ticks / (framesPerSecond \<times> ticksPerFrame) and do not depend on the tempo map. The
  header \<^verbatim>\<open>E7 28\<close> is 25 frames per second with 40 ticks per frame: 1000 ticks are one
  second. \<open>getTime\<close> divides by the whole field, 59176, as by ticks per quarter note, and
  its result changes with the tempo map.
\<close>

theorem smpte_division_counterexample:
  "bitand (getShort [77, 84, 104, 100, 0, 0, 0, 6, 0, 1, 0, 1, 0xE7, 0x28] 12) 0x8000 \<noteq> 0 \<and>
   timeDivision (MidiFile_header False [77, 84, 104, 100, 0, 0, 0, 6, 0, 1, 0, 1, 0xE7, 0x28])
     = Fin 59176 \<and>
   getTime [] (Fin 59176) 1000 = Fin (125 / 14794) \<and>
   getTime [] (Fin 59176) 1000 \<noteq> Fin (smpte_seconds 25 40 1000) \<and>
   getTime [\<lparr>tick = 0, tempo_microsecondsPerQuarterNote = Some 1000000\<rparr>] (Fin 59176) 1000
     = Fin (125 / 7397) \<and>
   getTime [\<lparr>tick = 0, tempo_microsecondsPerQuarterNote = Some 1000000\<rparr>] (Fin 59176) 1000
     \<noteq> getTime [] (Fin 59176) 1000"
  by (simp add: getTime_eval MidiFile_header_def Let_def getShort_def charCodeAt_def bitand_def
        smpte_seconds_def)

text \<open>
  C4, amended. When the high bit of the division is set, the constructor records
  \<open>framesPerSecond = division AND 0x7fff\<close> and leaves \<open>ticksPerBeat\<close> unset, and
  \<open>timeDivision\<close> stays the whole 16-bit field (halved under the half-speed option).
  \<open>getTime\<close> has no branch on the mode: it integrates the tempo map with \<open>timeDivision\<close>
  as the ticks per quarter note. With an empty tempo map a tick count is timed
  \<open>ticks * 500000 / timeDivision / 1000000\<close>, and with a tempo map of one tempo change of
  \<open>T\<close> microseconds per quarter note it is timed \<open>ticks * T / timeDivision / 1000000\<close>:
  the elapsed seconds follow the tempo map.
\<close>

theorem division_high_bit_no_mode:
  assumes "getShort fl 12 = Some d" and "d AND 0x8000 \<noteq> 0"
  shows "framesPerSecond (MidiFile_header hs fl) = Some (d AND 0x7fff) \<and>
         ticksPerBeat (MidiFile_header hs fl) = None \<and>
         timeDivision (MidiFile_header hs fl) = Fin (if hs then of_nat d / 2 else of_nat d) \<and>
         getTime [] (timeDivision (MidiFile_header hs fl)) tk =
           Fin (of_nat tk * 500000 / (if hs then of_nat d / 2 else of_nat d) / 1000000) \<and>
         getTime [\<lparr>tick = t0, tempo_microsecondsPerQuarterNote = Some T\<rparr>]
             (timeDivision (MidiFile_header hs fl)) tk =
           Fin (of_nat tk * of_nat T / (if hs then of_nat d / 2 else of_nat d) / 1000000)"
proof -
  have d: "d \<noteq> 0"
  proof
    assume "d = 0"
    then have "d AND 0x8000 = 0" by simp
    with assms(2) show False by simp
  qed
  have fps: "framesPerSecond (MidiFile_header hs fl) = Some (d AND 0x7fff)"
    using assms by (simp add: MidiFile_header_def Let_def bitand_def)
  have tpb: "ticksPerBeat (MidiFile_header hs fl) = None"
    using assms by (simp add: MidiFile_header_def Let_def bitand_def)
  have td: "timeDivision (MidiFile_header hs fl) = Fin (if hs then of_nat d / 2 else of_nat d)"
    using assms(1) d by (simp add: MidiFile_header_def Let_def num_of_def)
  have nz: "(if hs then rat_of_nat d / 2 else of_nat d) \<noteq> 0" using d by simp
  show ?thesis
    unfolding td using fps tpb getTime_no_tempo [OF nz] getTime_one_tempo [OF nz] by simp
qed

theorem division_high_bit_no_mode_witness:
  "getShort [77, 84, 104, 100, 0, 0, 0, 6, 0, 1, 0, 1, 0xE7, 0x28] 12 = Some 59176 \<and>
   (59176::nat) AND 0x8000 \<noteq> 0 \<and>
   framesPerSecond (MidiFile_header False [77, 84, 104, 100, 0, 0, 0, 6, 0, 1, 0, 1, 0xE7, 0x28])
     = Some 26408 \<and>
   ticksPerBeat (MidiFile_header False [77, 84, 104, 100, 0, 0, 0, 6, 0, 1, 0, 1, 0xE7, 0x28])
     = None \<and>
   getTime [] (timeDivision
       (MidiFile_header False [77, 84, 104, 100, 0, 0, 0, 6, 0, 1, 0, 1, 0xE7, 0x28])) 59176
     = Fin (1 / 2) \<and>
   getTime [\<lparr>tick = 0, tempo_microsecondsPerQuarterNote = Some 1000000\<rparr>] (timeDivision
       (MidiFile_header False [77, 84, 104, 100, 0, 0, 0, 6, 0, 1, 0, 1, 0xE7, 0x28])) 59176
     = Fin 1 \<and>
   getTime [\<lparr>tick = 0, tempo_microsecondsPerQuarterNote = Some 250000\<rparr>] (timeDivision
       (MidiFile_header False [77, 84, 104, 100, 0, 0, 0, 6, 0, 1, 0, 1, 0xE7, 0x28])) 59176
     = Fin (1 / 4)"
proof -
  have h1: "getShort [77, 84, 104, 100, 0, 0, 0, 6, 0, 1, 0, 1, 0xE7, 0x28] 12 = Some 59176"
    by (simp add: getShort_def charCodeAt_def)
  have h2: "(59176::nat) AND 0x8000 \<noteq> 0" by simp
  note inst = division_high_bit_no_mode [OF h1 h2, of False 59176 0 1000000]
  note inst2 = division_high_bit_no_mode [OF h1 h2, of False 59176 0 250000]
  from inst have "framesPerSecond
      (MidiFile_header False [77, 84, 104, 100, 0, 0, 0, 6, 0, 1, 0, 1, 0xE7, 0x28]) =
      Some (59176 AND 0x7fff)"
    by (elim conjE)
  then have a: "framesPerSecond
      (MidiFile_header False [77, 84, 104, 100, 0, 0, 0, 6, 0, 1, 0, 1, 0xE7, 0x28]) = Some 26408"
    by simp
  from inst have t: "ticksPerBeat
      (MidiFile_header False [77, 84, 104, 100, 0, 0, 0, 6, 0, 1, 0, 1, 0xE7, 0x28]) = None"
    by (elim conjE)
  from inst have "getTime [] (timeDivision
       (MidiFile_header False [77, 84, 104, 100, 0, 0, 0, 6, 0, 1, 0, 1, 0xE7, 0x28])) 59176
     = Fin (of_nat 59176 * 500000 / (if False then of_nat 59176 / 2 else of_nat 59176) / 1000000)"
    by (elim conjE)
  also have "\<dots> = Fin (1 / 2)" by simp
  finally have b: "getTime [] (timeDivision
       (MidiFile_header False [77, 84, 104, 100, 0, 0, 0, 6, 0, 1, 0, 1, 0xE7, 0x28])) 59176
     = Fin (1 / 2)" .
  from inst have "getTime [\<lparr>tick = 0, tempo_microsecondsPerQuarterNote = Some 1000000\<rparr>]
       (timeDivision
       (MidiFile_header False [77, 84, 104, 100, 0, 0, 0, 6, 0, 1, 0, 1, 0xE7, 0x28])) 59176
     = Fin (of_nat 59176 * of_nat 1000000 /
            (if False then of_nat 59176 / 2 else of_nat 59176) / 1000000)"
    by (elim conjE)
  also have "\<dots> = Fin 1" by simp
  finally have c: "getTime [\<lparr>tick = 0, tempo_microsecondsPerQuarterNote = Some 1000000\<rparr>]
       (timeDivision
       (MidiFile_header False [77, 84, 104, 100, 0, 0, 0, 6, 0, 1, 0, 1, 0xE7, 0x28])) 59176
     = Fin 1" .
  from inst2 have "getTime [\<lparr>tick = 0, tempo_microsecondsPerQuarterNote = Some 250000\<rparr>]
       (timeDivision
       (MidiFile_header False [77, 84, 104, 100, 0, 0, 0, 6, 0, 1, 0, 1, 0xE7, 0x28])) 59176
     = Fin (of_nat 59176 * of_nat 250000 /
            (if False then of_nat 59176 / 2 else of_nat 59176) / 1000000)"
    by (elim conjE)
  also have "\<dots> = Fin (1 / 4)" by simp
  finally have e: "getTime [\<lparr>tick = 0, tempo_microsecondsPerQuarterNote = Some 250000\<rparr>]
       (timeDivision
       (MidiFile_header False [77, 84, 104, 100, 0, 0, 0, 6, 0, 1, 0, 1, 0xE7, 0x28])) 59176
     = Fin (1 / 4)" .
  from h1 h2 a t b c e show ?thesis by (intro conjI)
qed

subsection \<open>addNote\<close>

lemma addNote_scan_Suc:
  "addNote_scan ns cn t b p (Suc i) =
     (if scan_match p (ns ! (cn ! i)) then ns[cn ! i := resolved t b (ns ! (cn ! i))]
      else addNote_scan ns cn t b p i)"
  by (simp add: scan_match_def resolved_def Let_def)

lemma addNote_scan_none:
  "(\<forall>i<k. \<not> scan_match p (ns ! (cn ! i))) \<Longrightarrow> addNote_scan ns cn t b p k = ns"
  by (induction k) (simp_all add: addNote_scan_Suc del: addNote_scan.simps(2))

lemma addNote_scan_hit:
  assumes "i < k" and "scan_match p (ns ! (cn ! i))"
    and "\<forall>j. i < j \<and> j < k \<longrightarrow> \<not> scan_match p (ns ! (cn ! j))"
  shows "addNote_scan ns cn t b p k = ns[cn ! i := resolved t b (ns ! (cn ! i))]"
  using assms
proof (induction k)
  case 0
  then show ?case by simp
next
  case (Suc k)
  show ?case
  proof (cases "i = k")
    case True
    with Suc.prems(2) show ?thesis
      by (simp add: addNote_scan_Suc del: addNote_scan.simps(2))
  next
    case False
    with Suc.prems(1) have ik: "i < k" by simp
    then have "\<not> scan_match p (ns ! (cn ! k))" using Suc.prems(3) by simp
    moreover have "addNote_scan ns cn t b p k = ns[cn ! i := resolved t b (ns ! (cn ! i))]"
      using Suc.IH [OF ik Suc.prems(2)] Suc.prems(3) by simp
    ultimately show ?thesis by (simp add: addNote_scan_Suc del: addNote_scan.simps(2))
  qed
qed

lemma findChannel_notes:
  assumes "findChannel m ch = Inr (m2, c)"
  shows "midi_notes m2 = midi_notes m \<and> channel_notes c = channel_refs m ch"
  using assms
  by (auto simp: findChannel_def channel_refs_def new_Channel_def Let_def
      split: option.splits if_splits)

lemma addNote_off_notes:
  assumes "\<not> truthy_int v" and "addNote m t b ch p v = Inr m'"
  shows "midi_notes m' =
     addNote_scan
       (midi_notes m @ [\<lparr>time = t, beats = b, channel = ch, pitch = p, vel = v,
                          durTime = None, durBeats = None\<rparr>])
       (channel_refs m ch @ [length (midi_notes m)]) t b p (length (channel_refs m ch))"
proof -
  let ?note = "\<lparr>time = t, beats = b, channel = ch, pitch = p, vel = v,
                 durTime = None, durBeats = None\<rparr>"
  let ?m1 = "m\<lparr>midi_notes := midi_notes m @ [?note]\<rparr>"
  from assms(2) obtain m2 c where fc: "findChannel ?m1 ch = Inr (m2, c)"
    by (auto simp: addNote_def Let_def split: sum.splits)
  from findChannel_notes [OF fc]
  have n2: "midi_notes m2 = midi_notes m @ [?note]" and cr: "channel_notes c = channel_refs m ch"
    by (simp_all add: channel_refs_def)
  from assms fc show ?thesis
    by (auto simp: addNote_def Let_def n2 cr)
qed

text \<open>
  The references of an object stay valid under \<open>addNote\<close>, and they are valid in an
  object without notes: the hypothesis of the next theorem holds of every object that the
  decoder builds.
\<close>

lemma length_addNote_scan [simp]: "length (addNote_scan ns cn t b p k) = length ns"
  by (induction k) (simp_all add: Let_def)

lemma findChannel_channels:
  assumes "findChannel m ch = Inr (m2, c)"
  shows "channels m2 ch = Some c"
    and "\<forall>k. k \<noteq> ch \<longrightarrow> channels m2 k = channels m k"
    and "channel_notes c = channel_refs m ch"
    and "midi_notes m2 = midi_notes m"
  using assms
  by (auto simp: findChannel_def channel_refs_def new_Channel_def Let_def
      split: option.splits if_splits)

lemma refs_valid_addNote:
  assumes valid: "refs_valid m" and run: "addNote m t b ch p v = Inr m'"
  shows "refs_valid m'"
proof -
  let ?note = "\<lparr>time = t, beats = b, channel = ch, pitch = p, vel = v,
                 durTime = None, durBeats = None\<rparr>"
  let ?m1 = "m\<lparr>midi_notes := midi_notes m @ [?note]\<rparr>"
  from run obtain m2 c where fc: "findChannel ?m1 ch = Inr (m2, c)"
    by (auto simp: addNote_def Let_def split: sum.splits)
  note f = findChannel_channels [OF fc]
  let ?cn = "channel_notes c @ [length (midi_notes m)]"
  from run fc have ch': "channels m' = (channels m2)(ch \<mapsto> c\<lparr>channel_notes := ?cn\<rparr>)"
    and len: "length (midi_notes m') = Suc (length (midi_notes m))"
    by (auto simp: addNote_def Let_def f(4) split: if_splits)
  have old: "\<forall>k\<in>set (channel_notes c). k < length (midi_notes m)"
    using valid f(3) by (auto simp: refs_valid_def channel_refs_def split: option.splits)
  show ?thesis
    unfolding refs_valid_def
  proof (intro allI impI ballI)
    fix k c' r
    assume c': "channels m' k = Some c'" and r: "r \<in> set (channel_notes c')"
    show "r < length (midi_notes m')"
    proof (cases "k = ch")
      case True
      with c' ch' have "channel_notes c' = ?cn" by auto
      with r old show ?thesis by (auto simp: len)
    next
      case False
      with c' ch' f(2) have "channels m k = Some c'" by simp
      with valid r have "r < length (midi_notes m)" by (auto simp: refs_valid_def)
      then show ?thesis by (simp add: len)
    qed
  qed
qed

lemma refs_valid_addNotes:
  "refs_valid m \<Longrightarrow> addNotes m cs = Inr m' \<Longrightarrow> refs_valid m'"
proof (induction cs arbitrary: m)
  case Nil
  then show ?case by simp
next
  case (Cons c cs)
  obtain t b ch p v where c: "c = (t, b, ch, p, v)" by (cases c)
  from Cons.prems(2) obtain m1 where one: "addNote m t b ch p v = Inr m1"
    and rest: "addNotes m1 cs = Inr m'"
    by (auto simp: c split: sum.splits)
  from Cons.IH [OF refs_valid_addNote [OF Cons.prems(1) one] rest] show ?case .
qed

lemma refs_valid_first_track: "refs_valid first_track"
  by (simp add: refs_valid_def first_track_def MidiFile_header_def Let_def)

text \<open>
  C1, amended. For a note-off (a falsy velocity) on a channel whose references are
  valid, the backward scan resolves the nearest preceding note of the channel with a
  truthy velocity and the same pitch, whether or not its duration is already set: its
  \<open>durTime\<close> and \<open>durBeats\<close> become the time and the beats of the terminator minus its own.
  Every other note is unchanged, and the terminator is appended. When the channel has no
  such note, no note changes.
\<close>

theorem addNote_off_resolves_nearest_match:
  assumes off: "\<not> truthy_int v"
    and valid: "refs_valid m"
    and run: "addNote m t b ch p v = Inr m'"
  shows "(\<forall>i. i < length (channel_refs m ch) \<and>
              scan_match p (midi_notes m ! (channel_refs m ch ! i)) \<and>
              (\<forall>j. i < j \<and> j < length (channel_refs m ch) \<longrightarrow>
                   \<not> scan_match p (midi_notes m ! (channel_refs m ch ! j))) \<longrightarrow>
            midi_notes m' =
              (midi_notes m)[channel_refs m ch ! i :=
                 resolved t b (midi_notes m ! (channel_refs m ch ! i))]
              @ [\<lparr>time = t, beats = b, channel = ch, pitch = p, vel = v,
                   durTime = None, durBeats = None\<rparr>]) \<and>
         ((\<forall>i<length (channel_refs m ch).
              \<not> scan_match p (midi_notes m ! (channel_refs m ch ! i))) \<longrightarrow>
            midi_notes m' =
              midi_notes m @ [\<lparr>time = t, beats = b, channel = ch, pitch = p, vel = v,
                                durTime = None, durBeats = None\<rparr>])"
proof -
  let ?ns = "midi_notes m"
  let ?cn = "channel_refs m ch"
  let ?note = "\<lparr>time = t, beats = b, channel = ch, pitch = p, vel = v,
                 durTime = None, durBeats = None\<rparr>"
  let ?ns' = "?ns @ [?note]"
  let ?cn' = "?cn @ [length ?ns]"
  have inr: "?cn ! i < length ?ns" if "i < length ?cn" for i
    using valid that by (auto simp: refs_valid_def channel_refs_def split: option.splits)
  have same: "?ns' ! (?cn' ! i) = ?ns ! (?cn ! i)" if "i < length ?cn" for i
    using that inr [OF that] by (simp add: nth_append)
  have res: "midi_notes m' = addNote_scan ?ns' ?cn' t b p (length ?cn)"
    by (rule addNote_off_notes [OF off run])
  have hit: "midi_notes m' = ?ns[?cn ! i := resolved t b (?ns ! (?cn ! i))] @ [?note]"
    if i: "i < length ?cn" and m: "scan_match p (?ns ! (?cn ! i))"
      and later: "\<forall>j. i < j \<and> j < length ?cn \<longrightarrow> \<not> scan_match p (?ns ! (?cn ! j))" for i
  proof -
    have "scan_match p (?ns' ! (?cn' ! i))" using m same [OF i] by simp
    moreover have "\<forall>j. i < j \<and> j < length ?cn \<longrightarrow> \<not> scan_match p (?ns' ! (?cn' ! j))"
      using later same by simp
    ultimately have "addNote_scan ?ns' ?cn' t b p (length ?cn) =
        ?ns'[?cn' ! i := resolved t b (?ns' ! (?cn' ! i))]"
      using i by (intro addNote_scan_hit) auto
    also have "\<dots> = ?ns[?cn ! i := resolved t b (?ns ! (?cn ! i))] @ [?note]"
      using i inr [OF i] by (simp add: nth_append list_update_append1)
    finally show ?thesis using res by simp
  qed
  have miss: "midi_notes m' = ?ns @ [?note]"
    if "\<forall>i<length ?cn. \<not> scan_match p (?ns ! (?cn ! i))"
  proof -
    have "\<forall>i<length ?cn. \<not> scan_match p (?ns' ! (?cn' ! i))"
      using that same by simp
    then show ?thesis using res by (simp add: addNote_scan_none)
  qed
  from hit miss show ?thesis by blast
qed


lemma one_note_on_reached:
  "addNote first_track (Fin 0) (Fin 0) 0 (Some 60) (Some 100) = Inr one_note_on"
  by (simp add: one_note_on_def first_track_def MidiFile_header_def addNote_eval)

theorem addNote_off_resolves_nearest_match_witness:
  "\<not> truthy_int (Some 0) \<and> refs_valid one_note_on \<and>
   (\<exists>m'. addNote one_note_on (Fin 1) (Fin 2) 0 (Some 60) (Some 0) = Inr m' \<and>
         midi_notes m' =
           [\<lparr>time = Fin 0, beats = Fin 0, channel = 0, pitch = Some 60, vel = Some 100,
             durTime = Some (Fin 1), durBeats = Some (Fin 2)\<rparr>,
            \<lparr>time = Fin 1, beats = Fin 2, channel = 0, pitch = Some 60, vel = Some 0,
             durTime = None, durBeats = None\<rparr>])"
proof -
  have off: "\<not> truthy_int (Some 0)" by (simp add: truthy_int_def)
  have valid: "refs_valid one_note_on"
    by (simp add: refs_valid_def one_note_on_def first_track_def)
  obtain m' where run: "addNote one_note_on (Fin 1) (Fin 2) 0 (Some 60) (Some 0) = Inr m'"
    by (simp add: one_note_on_def first_track_def MidiFile_header_def addNote_eval)
  have refs: "channel_refs one_note_on 0 = [0]"
    by (simp add: channel_refs_def one_note_on_def first_track_def)
  have ns: "midi_notes one_note_on =
      [\<lparr>time = Fin 0, beats = Fin 0, channel = 0, pitch = Some 60, vel = Some 100,
        durTime = None, durBeats = None\<rparr>]"
    by (simp add: one_note_on_def first_track_def)
  have pre: "0 < length (channel_refs one_note_on 0) \<and>
        scan_match (Some 60) (midi_notes one_note_on ! (channel_refs one_note_on 0 ! 0)) \<and>
        (\<forall>j. 0 < j \<and> j < length (channel_refs one_note_on 0) \<longrightarrow>
             \<not> scan_match (Some 60) (midi_notes one_note_on ! (channel_refs one_note_on 0 ! j)))"
    by (auto simp: refs ns scan_match_def truthy_int_def js_eq_def)
  from addNote_off_resolves_nearest_match [OF off valid run, THEN conjunct1, rule_format, OF pre]
  have "midi_notes m' =
          (midi_notes one_note_on)[channel_refs one_note_on 0 ! 0 :=
             resolved (Fin 1) (Fin 2) (midi_notes one_note_on ! (channel_refs one_note_on 0 ! 0))]
          @ [\<lparr>time = Fin 1, beats = Fin 2, channel = 0, pitch = Some 60, vel = Some 0,
               durTime = None, durBeats = None\<rparr>]" .
  then have res: "midi_notes m' =
           [\<lparr>time = Fin 0, beats = Fin 0, channel = 0, pitch = Some 60, vel = Some 100,
             durTime = Some (Fin 1), durBeats = Some (Fin 2)\<rparr>,
            \<lparr>time = Fin 1, beats = Fin 2, channel = 0, pitch = Some 60, vel = Some 0,
             durTime = None, durBeats = None\<rparr>]"
    by (simp add: refs ns resolved_def jsub_def)
  from off valid run res show ?thesis
    by - (intro conjI exI [of _ m']; assumption)
qed

text \<open>
  C1, as claimed: only a note-on whose duration is still unset is matched. Two note-ons
  of pitch 60 at times 0 and 1 are followed by two note-offs at times 2 and 3. The first
  note-off resolves the second note-on (duration 1). The second note-off matches the
  same note-on again, whose duration is set, and overwrites it with 2; the first
  note-on, still open, is never resolved.
\<close>

theorem addNote_rematches_resolved_note:
  "map_sum id (\<lambda>m. map durTime (midi_notes m))
     (addNotes first_track
        [(Fin 0, Fin 0, 0, Some 60, Some 100), (Fin 1, Fin 1, 0, Some 60, Some 100),
         (Fin 2, Fin 2, 0, Some 60, Some 0)])
     = Inr [None, Some (Fin 1), None] \<and>
   map_sum id (\<lambda>m. map durTime (midi_notes m))
     (addNotes first_track
        [(Fin 0, Fin 0, 0, Some 60, Some 100), (Fin 1, Fin 1, 0, Some 60, Some 100),
         (Fin 2, Fin 2, 0, Some 60, Some 0), (Fin 3, Fin 3, 0, Some 60, Some 0)])
     = Inr [None, Some (Fin 2), None, None]"
  by (simp add: first_track_def MidiFile_header_def addNote_eval)

lemma only_note_ons_scan:
  "only_note_ons_carry_duration ns \<Longrightarrow>
   only_note_ons_carry_duration (addNote_scan ns cn t b p k)"
proof (induction k)
  case 0
  then show ?case by simp
next
  case (Suc k)
  show ?case
  proof (cases "scan_match p (ns ! (cn ! k))")
    case True
    have "set (ns[cn ! k := resolved t b (ns ! (cn ! k))])
            \<subseteq> insert (resolved t b (ns ! (cn ! k))) (set ns)"
      by (rule set_update_subset_insert)
    moreover have "truthy_int (vel (resolved t b (ns ! (cn ! k))))"
      using True by (simp add: scan_match_def resolved_def)
    ultimately show ?thesis
      using True Suc.prems
      by (auto simp: addNote_scan_Suc only_note_ons_carry_duration_def
          simp del: addNote_scan.simps(2))
  next
    case False
    then show ?thesis
      using Suc by (simp add: addNote_scan_Suc del: addNote_scan.simps(2))
  qed
qed

lemma only_note_ons_addNote:
  assumes "only_note_ons_carry_duration (midi_notes m)" and "addNote m t b ch p v = Inr m'"
  shows "only_note_ons_carry_duration (midi_notes m')"
proof -
  let ?note = "\<lparr>time = t, beats = b, channel = ch, pitch = p, vel = v,
                 durTime = None, durBeats = None\<rparr>"
  have pushed: "only_note_ons_carry_duration (midi_notes m @ [?note])"
    using assms(1) by (auto simp: only_note_ons_carry_duration_def)
  show ?thesis
  proof (cases "truthy_int v")
    case False
    from addNote_off_notes [OF False assms(2)] only_note_ons_scan [OF pushed]
    show ?thesis by simp
  next
    case True
    let ?m1 = "m\<lparr>midi_notes := midi_notes m @ [?note]\<rparr>"
    from assms(2) obtain m2 c where fc: "findChannel ?m1 ch = Inr (m2, c)"
      by (auto simp: addNote_def Let_def split: sum.splits)
    from findChannel_notes [OF fc] have "midi_notes m2 = midi_notes m @ [?note]" by simp
    with assms(2) fc True have "midi_notes m' = midi_notes m @ [?note]"
      by (auto simp: addNote_def Let_def)
    with pushed show ?thesis by simp
  qed
qed

lemma only_note_ons_addNotes:
  "only_note_ons_carry_duration (midi_notes m) \<Longrightarrow> addNotes m cs = Inr m' \<Longrightarrow>
   only_note_ons_carry_duration (midi_notes m')"
proof (induction cs arbitrary: m)
  case Nil
  then show ?case by simp
next
  case (Cons c cs)
  obtain t b ch p v where c: "c = (t, b, ch, p, v)" by (cases c)
  from Cons.prems(2) obtain m1 where one: "addNote m t b ch p v = Inr m1"
    and rest: "addNotes m1 cs = Inr m'"
    by (auto simp: c split: sum.splits)
  from Cons.IH [OF only_note_ons_addNote [OF Cons.prems(1) one] rest] show ?case .
qed

text \<open>
  C10. After any sequence of calls of \<open>addNote\<close> on an object where only notes of truthy
  velocity carry a duration (as on a new object, which has no note), only notes of truthy
  velocity carry a duration: a terminator has neither \<open>durTime\<close> nor \<open>durBeats\<close>.
\<close>

theorem terminators_never_carry_duration:
  assumes "only_note_ons_carry_duration (midi_notes m)" and "addNotes m cs = Inr m'"
  shows "only_note_ons_carry_duration (midi_notes m') \<and>
         (\<forall>n\<in>set (midi_notes m'). \<not> truthy_int (vel n) \<longrightarrow> durTime n = None \<and> durBeats n = None)"
proof -
  have inv: "only_note_ons_carry_duration (midi_notes m')"
    by (rule only_note_ons_addNotes [OF assms])
  then show ?thesis by (auto simp: only_note_ons_carry_duration_def)
qed

theorem terminators_never_carry_duration_witness:
  "only_note_ons_carry_duration (midi_notes first_track) \<and>
   (\<exists>m'. addNotes first_track
            [(Fin 0, Fin 0, 0, Some 60, Some 100), (Fin 1, Fin 2, 0, Some 60, Some 0)] = Inr m' \<and>
         map vel (midi_notes m') = [Some 100, Some 0] \<and>
         map durTime (midi_notes m') = [Some (Fin 1), None] \<and>
         map durBeats (midi_notes m') = [Some (Fin 2), None] \<and>
         only_note_ons_carry_duration (midi_notes m'))"
proof -
  have start: "only_note_ons_carry_duration (midi_notes first_track)"
    by (simp add: only_note_ons_carry_duration_def first_track_def MidiFile_header_def Let_def)
  obtain m' where run: "addNotes first_track
            [(Fin 0, Fin 0, 0, Some 60, Some 100), (Fin 1, Fin 2, 0, Some 60, Some 0)] = Inr m'"
    and vals: "map vel (midi_notes m') = [Some 100, Some 0]"
      "map durTime (midi_notes m') = [Some (Fin 1), None]"
      "map durBeats (midi_notes m') = [Some (Fin 2), None]"
    by (simp add: first_track_def MidiFile_header_def addNote_eval)
  from terminators_never_carry_duration [OF start run]
  have "only_note_ons_carry_duration (midi_notes m')" by blast
  with start run vals show ?thesis
    by - (intro conjI exI [of _ m']; assumption)
qed

subsection \<open>createBpmMap\<close>












lemma bpm_bpm_entry [simp]:
  "bpm (bpm_entry m d t) = roundedBpm d (tempo_microsecondsPerQuarterNote t)"
  by (simp add: bpm_entry_def)








subsection \<open>The constructor and the signature\<close>

text \<open>
  C3, as claimed: a file whose first four bytes are not \<^verbatim>\<open>MThd\<close> fails before any chunk
  is scanned, and produces no track and no note. The constructor stores the result of
  \<open>isMidi\<close> and never reads it. A file that starts with \<^verbatim>\<open>RIFF\<close>, followed by the rest of
  a header and one \<^verbatim>\<open>MTrk\<close> chunk with a note-on of pitch 60, is decoded: the flag is
  false, one chunk is counted, and the object has one track and the note.
\<close>

theorem missing_signature_is_decoded:
  "isMidi [82, 73, 70, 70, 0, 0, 0, 6, 0, 0, 0, 1, 1, 224,
           77, 84, 114, 107, 0, 0, 0, 4, 0, 144, 60, 100] = False \<and>
   map_sum id (\<lambda>m. (isMidi_flag m, chunkCount m, length (tracks m),
                     map pitch (midi_notes m), map vel (midi_notes m)))
     (MidiFile False False
        [82, 73, 70, 70, 0, 0, 0, 6, 0, 0, 0, 1, 1, 224,
         77, 84, 114, 107, 0, 0, 0, 4, 0, 144, 60, 100])
     = Inr (False, 1, 1, [Some 60], [Some 100])"
  by (simp add: decode_eval)


lemma agree_charCodeAt:
  assumes "agree_from k a b" and "k \<le> i"
  shows "charCodeAt a i = charCodeAt b i"
proof -
  from assms(1) have len: "length a = length b" and dr: "drop k a = drop k b"
    by (simp_all add: agree_from_def)
  show ?thesis
  proof (cases "i < length a")
    case True
    have "a ! i = drop k a ! (i - k)" using True assms(2) by simp
    also have "\<dots> = drop k b ! (i - k)" by (simp only: dr)
    also have "\<dots> = b ! i" using True assms(2) len by simp
    finally show ?thesis using True len by (simp add: charCodeAt_def)
  next
    case False
    then show ?thesis using len by (simp add: charCodeAt_def)
  qed
qed

lemma agree_substring:
  assumes "agree_from k a b" and "k \<le> x"
  shows "substring a x y = substring b x y"
proof -
  from assms(1) have dr: "drop k a = drop k b" by (simp add: agree_from_def)
  have "drop x a = drop (x - k) (drop k a)" using assms(2) by simp
  also have "\<dots> = drop (x - k) (drop k b)" by (simp only: dr)
  also have "\<dots> = drop x b" using assms(2) by simp
  finally show ?thesis by (simp add: substring_def)
qed

lemma agree_getVarLen_loop:
  "agree_from k a b \<Longrightarrow> k \<le> off \<Longrightarrow> getVarLen_loop a r off = getVarLen_loop b r off"
proof (induction a r off rule: getVarLen_loop.induct)
  case (1 a r off)
  have c: "charCodeAt a off = charCodeAt b off"
    using "1.prems" by (rule agree_charCodeAt)
  show ?case
  proof (cases "bitand (charCodeAt a off) 0x80 \<noteq> 0")
    case True
    then have "getVarLen_loop a (r + 1) (off + 1) = getVarLen_loop b (r + 1) (off + 1)"
      using "1.IH" "1.prems" by simp
    then show ?thesis
      using True by (simp add: getVarLen_loop_cont [of a] getVarLen_loop_cont [of b] c [symmetric])
  next
    case False
    then show ?thesis
      by (simp add: getVarLen_loop_stop [of a] getVarLen_loop_stop [of b] c [symmetric])
  qed
qed

lemma agree_getVarVal_loop:
  "agree_from k a b \<Longrightarrow> k \<le> off \<Longrightarrow> getVarVal_loop a r off = getVarVal_loop b r off"
proof (induction a r off rule: getVarVal_loop.induct)
  case (1 a r off)
  have c: "charCodeAt a off = charCodeAt b off"
    using "1.prems" by (rule agree_charCodeAt)
  show ?case
  proof (cases "bitand (charCodeAt a off) 0x80 \<noteq> 0")
    case True
    then have "getVarVal_loop a (r * 128 + bitand (charCodeAt a off) 0x7f) (off + 1) =
        getVarVal_loop b (r * 128 + bitand (charCodeAt a off) 0x7f) (off + 1)"
      using "1.IH" "1.prems" by simp
    then show ?thesis
      using True by (simp add: getVarVal_loop_cont [of a] getVarVal_loop_cont [of b] c [symmetric])
  next
    case False
    then show ?thesis
      by (simp add: getVarVal_loop_stop [of a] getVarVal_loop_stop [of b] c [symmetric])
  qed
qed

lemma agree_reads:
  assumes "agree_from k a b" and "k \<le> off"
  shows "getVarLen a off = getVarLen b off"
    and "getVarVal a off = getVarVal b off"
    and "getByte a off = getByte b off"
    and "getShort a off = getShort b off"
    and "getInt24 a off = getInt24 b off"
    and "getLong a off = getLong b off"
    and "getVarString a off = getVarString b off"
    and "getEventLength a status off = getEventLength b status off"
proof -
  have c: "charCodeAt a (off + n) = charCodeAt b (off + n)" for n
  proof -
    have "k \<le> off + n" using assms(2) by simp
    from agree_charCodeAt [OF assms(1) this] show ?thesis .
  qed
  from c [of 0] have c0: "charCodeAt a off = charCodeAt b off" by simp
  from c [of 1] have c1: "charCodeAt a (Suc off) = charCodeAt b (Suc off)" by simp
  from c [of 2] have c2: "charCodeAt a (Suc (Suc off)) = charCodeAt b (Suc (Suc off))"
    by (simp add: numeral_2_eq_2)
  from c [of 3] have c3: "charCodeAt a (Suc (Suc (Suc off))) = charCodeAt b (Suc (Suc (Suc off)))"
    by (simp add: numeral_3_eq_3)
  show len: "getVarLen a off = getVarLen b off"
    using assms by (simp add: getVarLen_def agree_getVarLen_loop)
  show val: "getVarVal a off = getVarVal b off"
    using assms by (simp add: getVarVal_def agree_getVarVal_loop)
  show "getByte a off = getByte b off" by (simp add: getByte_def c0)
  show "getShort a off = getShort b off" by (simp add: getShort_def c0 c1)
  show "getInt24 a off = getInt24 b off"
    by (simp add: getInt24_def c0 c1 c2 numeral_2_eq_2)
  show "getLong a off = getLong b off"
    by (simp add: getLong_def c0 c1 c2 c3 numeral_2_eq_2 numeral_3_eq_3)
  show "getVarString a off = getVarString b off"
    using assms by (simp add: getVarString_def len val agree_substring [OF assms(1)])
  have "getVarVal a (off + 1) = getVarVal b (off + 1)"
    "getVarLen a (off + 1) = getVarLen b (off + 1)"
    using assms by (simp_all add: getVarVal_def getVarLen_def agree_getVarVal_loop
        agree_getVarLen_loop)
  then show "getEventLength a status off = getEventLength b status off"
    by (simp add: getEventLength_def)
qed

lemma resigned_fields [simp]:
  "midi_notes (resigned fl m) = midi_notes m"
  "channels (resigned fl m) = channels m"
  "tracks (resigned fl m) = tracks m"
  "tempoMap (resigned fl m) = tempoMap m"
  "timeDivision (resigned fl m) = timeDivision m"
  "microsecondsPerQuarterNote (resigned fl m) = microsecondsPerQuarterNote m"
  by (simp_all add: resigned_def)

lemma resigned_findChannel:
  "findChannel (resigned fl m) i = map_sum id (map_prod (resigned fl) id) (findChannel m i)"
  by (simp add: findChannel_def resigned_def Let_def split: option.splits)

lemma resigned_addNote:
  "addNote (resigned fl m) t b ch p v = map_sum id (resigned fl) (addNote m t b ch p v)"
proof -
  let ?note = "\<lparr>time = t, beats = b, channel = ch, pitch = p, vel = v,
                 durTime = None, durBeats = None\<rparr>"
  have push: "(resigned fl m)\<lparr>midi_notes := midi_notes m @ [?note]\<rparr> =
      resigned fl (m\<lparr>midi_notes := midi_notes m @ [?note]\<rparr>)"
    by (simp add: resigned_def)
  show ?thesis
    unfolding addNote_def Let_def resigned_fields push resigned_findChannel
    by (auto simp: resigned_def split: sum.splits)
qed




lemma resigned_metaEvent:
  assumes "agree_from k a b" and "k \<le> off"
  shows "metaEvent b ct (resigned b m) tk prefix off b1 =
           map_sum id (map_prod (resigned b) id) (metaEvent a ct m tk prefix off b1)"
proof -
  have le: "k \<le> off + n" for n using assms(2) by simp
  note rd = agree_reads [OF assms(1) le]
  have upd: "(resigned b m)\<lparr>tracks := x\<rparr> = resigned b (m\<lparr>tracks := x\<rparr>)"
    "addTempo ((resigned b m)\<lparr>microsecondsPerQuarterNote := q\<rparr>) tk q =
       resigned b (addTempo (m\<lparr>microsecondsPerQuarterNote := q\<rparr>) tk q)"
    "addTimeSignatureAt
       ((resigned b m)\<lparr>timeSignatureNumerator := n1, timeSignatureDenominator := d1,
          timeSignatureMetronomeInterval := mi, timeSignatureHemiDemiSemiNotesPerQuarterNote := h\<rparr>)
       tk n1 d1 mi h =
     resigned b (addTimeSignatureAt
       (m\<lparr>timeSignatureNumerator := n1, timeSignatureDenominator := d1,
          timeSignatureMetronomeInterval := mi, timeSignatureHemiDemiSemiNotesPerQuarterNote := h\<rparr>)
       tk n1 d1 mi h)"
    for x q n1 d1 mi h
    by (simp_all add: resigned_def addTempo_def addTimeSignatureAt_def)
  have chan: "(resigned b m')\<lparr>channels := x\<rparr> = resigned b (m'\<lparr>channels := x\<rparr>)" for m' x
    by (simp add: resigned_def)
  show ?thesis
    unfolding metaEvent_def Let_def resigned_fields resigned_findChannel upd rd [symmetric]
    by (auto simp: chan split: sum.splits option.splits)
qed

lemma decodeEvent_parts:
  "decodeEvent fl ct m st =
     (case event_handled fl ct m st of
        Inl e \<Rightarrow> Inl e
      | Inr (m', prefix') \<Rightarrow> Inr (m', event_next fl m st prefix'))"
  unfolding decodeEvent_def event_handled_def event_next_def event_status_def event_offset_def
    event_seconds_def event_beats_def event_timed_def event_ticks_def Let_def
  by (rule refl)


lemma agree_event_parts:
  assumes "agree_from k a b" and "k \<le> chunkOffset st"
  shows "event_ticks b st = event_ticks a st"
    and "event_status b st = event_status a st"
    and "event_offset b st = event_offset a st"
    and "k \<le> event_offset a st"
proof -
  note rd = agree_reads(1,2) [OF assms, symmetric]
  have "k \<le> chunkOffset st + getVarLen a (chunkOffset st)" using assms(2) by simp
  from agree_charCodeAt [OF assms(1) this]
  have c: "charCodeAt b (chunkOffset st + getVarLen a (chunkOffset st)) =
           charCodeAt a (chunkOffset st + getVarLen a (chunkOffset st))" by simp
  show "event_ticks b st = event_ticks a st" by (simp add: event_ticks_def rd)
  show "event_status b st = event_status a st"
    unfolding event_status_def Let_def rd c by (rule refl)
  show "event_offset b st = event_offset a st"
    unfolding event_offset_def Let_def rd c by (rule refl)
  show "k \<le> event_offset a st" using assms(2) by (simp add: event_offset_def Let_def)
qed

lemma resigned_event_times:
  assumes "agree_from k a b" and "k \<le> chunkOffset st"
  shows "event_seconds b (resigned b m) st = event_seconds a m st"
    and "event_beats b (resigned b m) st = event_beats a m st"
  by (simp_all add: event_seconds_def event_beats_def event_timed_def
      agree_event_parts(1) [OF assms])

lemma resigned_event_next:
  assumes "agree_from k a b" and "k \<le> chunkOffset st"
  shows "event_next b (resigned b m) st p = event_next a m st p"
proof -
  note parts = agree_event_parts [OF assms]
  from agree_reads(8) [OF assms(1) parts(4)]
  have "getEventLength b (event_status a st) (event_offset a st) =
        getEventLength a (event_status a st) (event_offset a st)" by simp
  then show ?thesis
    unfolding event_next_def parts(1,2,3) resigned_event_times [OF assms] by simp
qed

lemma resigned_event_handled:
  assumes "agree_from k a b" and "k \<le> chunkOffset st"
  shows "event_handled b ct (resigned b m) st =
           map_sum id (map_prod (resigned b) id) (event_handled a ct m st)"
proof -
  note parts = agree_event_parts [OF assms]
  let ?off = "event_offset a st"
  from agree_charCodeAt [OF assms(1) parts(4)]
  have c0: "charCodeAt b ?off = charCodeAt a ?off" by simp
  have "k \<le> ?off + 1" using parts(4) by simp
  from agree_charCodeAt [OF assms(1) this]
  have c1: "charCodeAt b (?off + 1) = charCodeAt a (?off + 1)" by simp
  note me = resigned_metaEvent [OF assms(1) parts(4)]
  show ?thesis
    unfolding event_handled_def Let_def parts(1,2,3) resigned_event_times [OF assms]
      c0 c1 me resigned_addNote
    by (simp add: sum.map_comp comp_def split: if_splits)
qed

lemma resigned_decodeEvent:
  assumes "agree_from k a b" and "k \<le> chunkOffset st"
  shows "decodeEvent b ct (resigned b m) st =
           map_sum id (map_prod (resigned b) id) (decodeEvent a ct m st)"
proof (cases "event_handled a ct m st")
  case (Inl e)
  then show ?thesis
    by (simp add: decodeEvent_parts resigned_event_handled [OF assms])
next
  case (Inr r)
  obtain m' p' where r: "r = (m', p')" by (cases r)
  have "event_next b (resigned b m) st p' = event_next a m st p'"
    by (rule resigned_event_next [OF assms])
  then show ?thesis
    using Inr r by (simp add: decodeEvent_parts resigned_event_handled [OF assms])
qed


lemma resigned_track_loop:
  assumes ag: "agree_from k a b"
  shows "k \<le> chunkOffset st \<Longrightarrow>
         track_loop b ct ce (resigned b m) st = map_sum id (resigned b) (track_loop a ct ce m st)"
proof (induction "ce - chunkOffset st" arbitrary: m st rule: less_induct)
  case less
  show ?case
  proof (cases "chunkOffset st < ce")
    case False
    then show ?thesis by (simp add: track_loop_stop)
  next
    case True
    note dec = resigned_decodeEvent [OF ag less.prems, of ct m]
    show ?thesis
    proof (cases "decodeEvent a ct m st")
      case (Inl e)
      with True dec show ?thesis by (simp add: track_loop_step)
    next
      case (Inr r)
      obtain m' nxt where r: "r = (m', nxt)" by (cases r)
      show ?thesis
      proof (cases nxt)
        case None
        with True dec Inr r show ?thesis by (simp add: track_loop_step)
      next
        case (Some st')
        from decodeEvent_advances [of a ct m st m' st'] Inr r Some
        have adv: "chunkOffset st < chunkOffset st'" by simp
        then have "ce - chunkOffset st' < ce - chunkOffset st" using True by simp
        moreover have "k \<le> chunkOffset st'" using adv less.prems by simp
        ultimately have "track_loop b ct ce (resigned b m') st' =
            map_sum id (resigned b) (track_loop a ct ce m' st')"
          by (rule less.hyps)
        with True dec Inr r Some show ?thesis by (simp add: track_loop_step)
      qed
    qed
  qed
qed

lemma resigned_chunk_loop:
  assumes ag: "agree_from k a b"
  shows "k \<le> offset \<Longrightarrow>
         chunk_loop b (resigned b m) offset ct = map_sum id (resigned b) (chunk_loop a m offset ct)"
proof (induction "length a - offset" arbitrary: m offset ct rule: less_induct)
  case less
  from ag have len: "length b = length a" by (simp add: agree_from_def)
  show ?case
  proof (cases "offset < length a")
    case False
    then show ?thesis by (simp add: chunk_loop_stop len)
  next
    case True
    have ty: "substring b offset (offset + 4) = substring a offset (offset + 4)"
      using agree_substring [OF ag less.prems] by simp
    have "k \<le> offset + 4" using less.prems by simp
    from agree_reads(6) [OF ag this]
    have ln: "getLong b (offset + 4) = getLong a (offset + 4)" by simp
    have cc: "(resigned b m)\<lparr>chunkCount := chunkCount (resigned b m) + 1\<rparr> =
        resigned b (m\<lparr>chunkCount := chunkCount m + 1\<rparr>)"
      by (simp add: resigned_def)
    have tr: "(resigned b m1)\<lparr>tracks := tracks (resigned b m1) @ [new_Track]\<rparr> =
        resigned b (m1\<lparr>tracks := tracks m1 @ [new_Track]\<rparr>)" for m1
      by (simp add: resigned_def)
    have rec: "chunk_loop b (resigned b m') (offset + 8 + n) ct' =
        map_sum id (resigned b) (chunk_loop a m' (offset + 8 + n) ct')" for m' n ct'
    proof -
      have "length a - (offset + 8 + n) < length a - offset" using True by simp
      moreover have "k \<le> offset + 8 + n" using less.prems by simp
      ultimately show ?thesis by (rule less.hyps)
    qed
    have trk: "track_loop b ct ce (resigned b m')
          \<lparr>chunkOffset = offset + 8, previousStatus = 0, ticks = 0,
           midiChannelPrefix = Some 0, seconds = Fin 0\<rparr> =
        map_sum id (resigned b) (track_loop a ct ce m'
          \<lparr>chunkOffset = offset + 8, previousStatus = 0, ticks = 0,
           midiChannelPrefix = Some 0, seconds = Fin 0\<rparr>)" for ce m'
      by (rule resigned_track_loop [OF ag]) (use less.prems in simp)
    have lhs: "chunk_loop b (resigned b m) offset ct =
        (if substring a offset (offset + 4) = map of_char ''MTrk''
         then (case getLong a (offset + 4) of
                 None \<Rightarrow> Inr (resigned b
                    (m\<lparr>chunkCount := chunkCount m + 1,
                       tracks := tracks m @ [new_Track]\<rparr>))
               | Some n \<Rightarrow>
                   (case track_loop a ct (offset + 8 + n)
                           (m\<lparr>chunkCount := chunkCount m + 1,
                              tracks := tracks m @ [new_Track]\<rparr>)
                           \<lparr>chunkOffset = offset + 8, previousStatus = 0, ticks = 0,
                            midiChannelPrefix = Some 0, seconds = Fin 0\<rparr> of
                      Inl e \<Rightarrow> Inl e
                    | Inr m3 \<Rightarrow> map_sum id (resigned b)
                        (chunk_loop a m3 (offset + 8 + n) (ct + 1))))
         else (case getLong a (offset + 4) of
                 None \<Rightarrow> Inr (resigned b (m\<lparr>chunkCount := chunkCount m + 1\<rparr>))
               | Some n \<Rightarrow> map_sum id (resigned b)
                   (chunk_loop a (m\<lparr>chunkCount := chunkCount m + 1\<rparr>) (offset + 8 + n) ct)))"
      using True
      unfolding chunk_loop_step [of offset b, unfolded len, OF True] Let_def ty ln cc tr trk
      by (auto simp: rec split: option.splits sum.splits)
    have rhs: "chunk_loop a m offset ct =
        (if substring a offset (offset + 4) = map of_char ''MTrk''
         then (case getLong a (offset + 4) of
                 None \<Rightarrow> Inr (m\<lparr>chunkCount := chunkCount m + 1,
                       tracks := tracks m @ [new_Track]\<rparr>)
               | Some n \<Rightarrow>
                   (case track_loop a ct (offset + 8 + n)
                           (m\<lparr>chunkCount := chunkCount m + 1,
                              tracks := tracks m @ [new_Track]\<rparr>)
                           \<lparr>chunkOffset = offset + 8, previousStatus = 0, ticks = 0,
                            midiChannelPrefix = Some 0, seconds = Fin 0\<rparr> of
                      Inl e \<Rightarrow> Inl e
                    | Inr m3 \<Rightarrow> chunk_loop a m3 (offset + 8 + n) (ct + 1)))
         else (case getLong a (offset + 4) of
                 None \<Rightarrow> Inr (m\<lparr>chunkCount := chunkCount m + 1\<rparr>)
               | Some n \<Rightarrow> chunk_loop a (m\<lparr>chunkCount := chunkCount m + 1\<rparr>) (offset + 8 + n) ct))"
      unfolding chunk_loop_step [OF True] Let_def
      by (simp cong: option.case_cong sum.case_cong)
    show ?thesis
      unfolding lhs rhs by (simp split: option.splits sum.splits)
  qed
qed

lemma resigned_header:
  assumes "agree_from k a b" and "k \<le> 8"
  shows "MidiFile_header hs b = resigned b (MidiFile_header hs a)"
proof -
  from assms(1) have len: "length b = length a" by (simp add: agree_from_def)
  have "k \<le> 8" "k \<le> 10" "k \<le> 12" using assms(2) by simp_all
  note rd = this [THEN agree_reads(4) [OF assms(1)], symmetric]
  show ?thesis
    unfolding MidiFile_header_def Let_def resigned_def rd len by simp
qed

text \<open>
  C3, amended. The signature only sets the flag \<^verbatim>\<open>this.isMidi\<close>: it is true exactly when
  the first four bytes are \<^verbatim>\<open>MThd\<close>. For every file, whatever its first four bytes, the
  constructor scans the chunks from offset 14 and returns what it returns for the same
  file with the signature \<^verbatim>\<open>MThd\<close> (the same exception, or the same object: the same
  tracks, notes, tempo and time-signature entries), but for the stored file and the flag.
\<close>

theorem MidiFile_ignores_signature:
  assumes "length sig = 4"
  shows "isMidi (sig @ rest) = (sig = map of_char ''MThd'') \<and>
         MidiFile hs c (sig @ rest) =
           map_sum id (resigned (sig @ rest)) (MidiFile hs c (map of_char ''MThd'' @ rest))"
proof -
  let ?a = "map of_char ''MThd'' @ rest"
  let ?b = "sig @ rest"
  have ag: "agree_from 4 ?a ?b" using assms by (simp add: agree_from_def)
  have flag: "isMidi ?b = (sig = map of_char ''MThd'')"
    using assms by (simp add: isMidi_def substring_def)
  have hd: "MidiFile_header hs ?b = resigned ?b (MidiFile_header hs ?a)"
    by (rule resigned_header [OF ag]) simp
  have "chunk_loop ?b (resigned ?b (MidiFile_header hs ?a)) 14 0 =
      map_sum id (resigned ?b) (chunk_loop ?a (MidiFile_header hs ?a) 14 0)"
    by (rule resigned_chunk_loop [OF ag]) simp
  then have "MidiFile hs c ?b = map_sum id (resigned ?b) (MidiFile hs c ?a)"
    unfolding MidiFile_def Let_def hd by simp
  with flag show ?thesis by simp
qed

theorem MidiFile_ignores_signature_witness:
  "length [82, 73, 70, 70 :: nat] = 4 \<and>
   isMidi ([82, 73, 70, 70] @
           [0, 0, 0, 6, 0, 0, 0, 1, 1, 224, 77, 84, 114, 107, 0, 0, 0, 4, 0, 144, 60, 100])
     = False \<and>
   MidiFile False False
     ([82, 73, 70, 70] @
      [0, 0, 0, 6, 0, 0, 0, 1, 1, 224, 77, 84, 114, 107, 0, 0, 0, 4, 0, 144, 60, 100]) =
   map_sum id
     (resigned ([82, 73, 70, 70] @
        [0, 0, 0, 6, 0, 0, 0, 1, 1, 224, 77, 84, 114, 107, 0, 0, 0, 4, 0, 144, 60, 100]))
     (MidiFile False False
        (map of_char ''MThd'' @
         [0, 0, 0, 6, 0, 0, 0, 1, 1, 224, 77, 84, 114, 107, 0, 0, 0, 4, 0, 144, 60, 100]))"
proof -
  have h: "length [82, 73, 70, 70 :: nat] = 4" by simp
  note inst = MidiFile_ignores_signature [OF h,
      of "[0, 0, 0, 6, 0, 0, 0, 1, 1, 224, 77, 84, 114, 107, 0, 0, 0, 4, 0, 144, 60, 100]"
         False False]
  from inst have "isMidi ([82, 73, 70, 70] @
           [0, 0, 0, 6, 0, 0, 0, 1, 1, 224, 77, 84, 114, 107, 0, 0, 0, 4, 0, 144, 60, 100])
     = ([82, 73, 70, 70 :: nat] = map of_char ''MThd'')"
    by (rule conjunct1)
  then have f: "isMidi ([82, 73, 70, 70] @
           [0, 0, 0, 6, 0, 0, 0, 1, 1, 224, 77, 84, 114, 107, 0, 0, 0, 4, 0, 144, 60, 100])
     = False"
    by simp
  from h f inst [THEN conjunct2] show ?thesis by (intro conjI)
qed

end
